theory Spec2Isabelle
  imports Complex_Main "HOL-Library.AList"
begin

section \<open>The \<open>.dat\<close> parser of \<open>dat_to_json.py\<close>\<close>

text \<open>
  The text of a file is a list of 8-bit characters, read as the code points U+0000 to
  U+00FF of the decoded text (\<open>read_text\<close> decodes the bytes before the parser sees
  them). The character classes below are those of Python 3 on that range. A dictionary is
  an association list updated with \<open>AList.update\<close>: a new key goes to the end, an
  existing key keeps its place and takes the new value, as a Python \<open>dict\<close> does. An
  exception is a value \<open>Inl e\<close> of the result.
\<close>

subsection \<open>Characters and strings of Python\<close>

definition ord :: "char \<Rightarrow> nat" where
  "ord c = of_char c"

text \<open>\<open>str.isspace\<close>, the class of \<open>str.strip()\<close>, \<open>str.split()\<close> and of \<open>\s\<close>.\<close>

definition isspace :: "char \<Rightarrow> bool" where
  "isspace c = (c \<in> set [CHR 0x09, CHR 0x0A, CHR 0x0B, CHR 0x0C, CHR 0x0D,
      CHR 0x1C, CHR 0x1D, CHR 0x1E, CHR 0x1F, CHR 0x20, CHR 0x85, CHR 0xA0])"

definition is_digit :: "char \<Rightarrow> bool" where
  "is_digit c = (48 \<le> ord c \<and> ord c \<le> 57)"

text \<open>\<open>[A-Za-z_]\<close> and \<open>\w\<close> (alphanumeric of Unicode, or the underscore).\<close>

definition is_name_start :: "char \<Rightarrow> bool" where
  "is_name_start c = ((65 \<le> ord c \<and> ord c \<le> 90) \<or> (97 \<le> ord c \<and> ord c \<le> 122) \<or> ord c = 95)"

definition is_word :: "char \<Rightarrow> bool" where
  "is_word c = (is_name_start c \<or> is_digit c \<or>
      ord c \<in> set [170, 178, 179, 181, 185, 186, 188, 189, 190] \<or>
      (192 \<le> ord c \<and> ord c \<le> 214) \<or> (216 \<le> ord c \<and> ord c \<le> 246) \<or> 248 \<le> ord c)"

text \<open>\<open>s.strip()\<close>\<close>

definition strip :: "string \<Rightarrow> string" where
  "strip s = rev (dropWhile isspace (rev (dropWhile isspace s)))"

text \<open>\<open>s.split()\<close>: the maximal runs of characters that are not white space. The first
  argument is the word being read.\<close>

primrec split_acc :: "string \<Rightarrow> string \<Rightarrow> string list" where
  "split_acc w [] = (if w = [] then [] else [w])"
| "split_acc w (c # cs) =
     (if isspace c then (if w = [] then [] else [w]) @ split_acc [] cs
      else split_acc (w @ [c]) cs)"

definition split_ws :: "string \<Rightarrow> string list" where
  "split_ws s = split_acc [] s"

text \<open>\<open>s.startswith(p)\<close>, \<open>s.find(sub)\<close> (\<open>None\<close> for -1), \<open>sub in s\<close>.\<close>

definition startswith :: "string \<Rightarrow> string \<Rightarrow> bool" where
  "startswith p s = (take (length p) s = p)"

fun find_sub :: "string \<Rightarrow> string \<Rightarrow> nat option" where
  "find_sub sub [] = (if sub = [] then Some 0 else None)"
| "find_sub sub (c # cs) =
     (if startswith sub (c # cs) then Some 0 else map_option Suc (find_sub sub cs))"

definition contains :: "string \<Rightarrow> string \<Rightarrow> bool" where
  "contains sub s = (find_sub sub s \<noteq> None)"

text \<open>\<open>s.split(sep, 1)\<close> for a separator that is not empty: one part when the separator
  does not occur, two parts otherwise. \<open>s.split(sep)[0]\<close> is its first part too.\<close>

definition split1 :: "string \<Rightarrow> string \<Rightarrow> string list" where
  "split1 sep s = (case find_sub sep s of None \<Rightarrow> [s]
     | Some k \<Rightarrow> [take k s, drop (k + length sep) s])"

definition before_first :: "string \<Rightarrow> string \<Rightarrow> string" where
  "before_first sep s = (case find_sub sep s of None \<Rightarrow> s | Some k \<Rightarrow> take k s)"

text \<open>\<open>s.replace(old, new)\<close> for a single character \<open>old\<close>, and for the two
  characters \<open>:=\<close> (occurrences from the left, not overlapping).\<close>

definition replace_char :: "char \<Rightarrow> string \<Rightarrow> string \<Rightarrow> string" where
  "replace_char old new s = concat (map (\<lambda>c. if c = old then new else [c]) s)"

fun replace_assign :: "string \<Rightarrow> string \<Rightarrow> string" where
  "replace_assign new (c # d # cs) =
     (if c = CHR '':'' \<and> d = CHR ''='' then new @ replace_assign new cs
      else c # replace_assign new (d # cs))"
| "replace_assign new cs = cs"

text \<open>\<open>sep.join(xs)\<close>\<close>

fun join :: "string \<Rightarrow> string list \<Rightarrow> string" where
  "join sep [] = []"
| "join sep [x] = x"
| "join sep (x # y # ys) = x @ sep @ join sep (y # ys)"

text \<open>\<open>xs.index(x)\<close> (\<open>None\<close> where Python raises ValueError) and the slice
  \<open>xs[i:j]\<close> for indices that are not negative.\<close>

fun index_of :: "'a \<Rightarrow> 'a list \<Rightarrow> nat option" where
  "index_of x [] = None"
| "index_of x (y # ys) = (if y = x then Some 0 else map_option Suc (index_of x ys))"

definition slice :: "nat \<Rightarrow> nat \<Rightarrow> 'a list \<Rightarrow> 'a list" where
  "slice i j xs = take (j - i) (drop i xs)"

text \<open>\<open>text.splitlines()\<close>: the line boundaries of Python on this range of code points
  are LF, CR, CR LF, VT, FF, FS, GS, RS and NEL; the boundary is not kept, and a boundary
  at the very end starts no further line.\<close>

definition is_linebreak :: "char \<Rightarrow> bool" where
  "is_linebreak c = (c \<in> set [CHR 0x0A, CHR 0x0B, CHR 0x0C, CHR 0x0D,
      CHR 0x1C, CHR 0x1D, CHR 0x1E, CHR 0x85])"

fun splitlines_acc :: "string \<Rightarrow> string \<Rightarrow> string list" where
  "splitlines_acc cur [] = (if cur = [] then [] else [cur])"
| "splitlines_acc cur (c # cs) =
     (if c = CHR 0x0D \<and> cs \<noteq> [] \<and> hd cs = CHR 0x0A then cur # splitlines_acc [] (tl cs)
      else if is_linebreak c then cur # splitlines_acc [] cs
      else splitlines_acc (cur @ [c]) cs)"

definition splitlines :: "string \<Rightarrow> string list" where
  "splitlines s = splitlines_acc [] s"

subsection \<open>\<open>float(s)\<close> on a string\<close>

text \<open>
  A float is kept as the exact decimal value its literal denotes (or an infinity, or not
  a number): the rounding of that value to the nearest double, the overflow of a large
  value to an infinity and the sign of a zero are outside this model, as is the limit of
  \<open>10^9\<close> digits. What the parser needs is which strings \<open>float\<close> accepts, and that is
  modelled in full: decimal digits with single underscores between digits, an optional
  point, an optional exponent, an optional sign, \<open>inf\<close>, \<open>infinity\<close> and \<open>nan\<close> in any
  case, with ASCII white space around.
\<close>

datatype pyfloat = Finite rat | PosInf | NegInf | NaN

definition digit_val :: "char \<Rightarrow> nat" where
  "digit_val c = ord c - 48"

definition digits_val :: "string \<Rightarrow> nat" where
  "digits_val ds = foldl (\<lambda>a c. 10 * a + digit_val c) 0 ds"

text \<open>Code points from 127 on: a space of Unicode becomes a blank, any other one a
  question mark that ends the string (there is no decimal digit among them).\<close>

fun to_ascii :: "string \<Rightarrow> string" where
  "to_ascii [] = []"
| "to_ascii (c # cs) =
     (if ord c < 127 then c # to_ascii cs
      else if isspace c then CHR '' '' # to_ascii cs
      else ''?'')"

text \<open>Underscores: each one stands after a digit and before a digit; they are removed.
  The first argument is the character before.\<close>

fun drop_underscores :: "char \<Rightarrow> string \<Rightarrow> string option" where
  "drop_underscores prev [] = (if prev = CHR ''_'' then None else Some [])"
| "drop_underscores prev (c # cs) =
     (if c = CHR ''_'' then (if is_digit prev then drop_underscores c cs else None)
      else if prev = CHR ''_'' \<and> \<not> is_digit c then None
      else map_option ((#) c) (drop_underscores c cs))"

definition c_isspace :: "char \<Rightarrow> bool" where
  "c_isspace c = (c \<in> set [CHR 0x09, CHR 0x0A, CHR 0x0B, CHR 0x0C, CHR 0x0D, CHR 0x20])"

definition parse_sign :: "string \<Rightarrow> bool \<times> string" where
  "parse_sign s = (case s of [] \<Rightarrow> (False, [])
     | c # cs \<Rightarrow> if c = CHR ''-'' then (True, cs)
                else if c = CHR ''+'' then (False, cs) else (False, s))"

text \<open>The exponent part: \<open>e\<close> or \<open>E\<close>, an optional sign and at least one digit;
  without a digit nothing is consumed.\<close>

definition parse_exponent :: "string \<Rightarrow> int \<times> string" where
  "parse_exponent s = (case s of [] \<Rightarrow> (0, [])
     | c # cs \<Rightarrow>
        if c = CHR ''e'' \<or> c = CHR ''E'' then
          (let (neg, r) = parse_sign cs; ds = takeWhile is_digit r in
           if ds = [] then (0, s)
           else ((if neg then - int (digits_val ds) else int (digits_val ds)),
                 dropWhile is_digit r))
        else (0, s))"

definition scale10 :: "rat \<Rightarrow> int \<Rightarrow> rat" where
  "scale10 m e = (if 0 \<le> e then m * 10 ^ nat e else m / 10 ^ nat (- e))"

text \<open>The decimal number at the start of a string, and what follows it; \<open>None\<close> when
  there is no digit.\<close>

definition parse_decimal :: "string \<Rightarrow> (pyfloat \<times> string) option" where
  "parse_decimal s =
     (let (neg, s1) = parse_sign s;
          ip = takeWhile is_digit s1;
          s2 = dropWhile is_digit s1;
          (fp, s3) = (case s2 of [] \<Rightarrow> ([], [])
             | c # cs \<Rightarrow> if c = CHR ''.'' then (takeWhile is_digit cs, dropWhile is_digit cs)
                        else ([], s2))
      in if ip = [] \<and> fp = [] then None
         else (let (ex, s4) = parse_exponent s3;
                   m = scale10 (of_nat (digits_val (ip @ fp))) (ex - int (length fp))
               in Some (Finite (if neg then - m else m), s4)))"

definition lower :: "char \<Rightarrow> char" where
  "lower c = (if 65 \<le> ord c \<and> ord c \<le> 90 then char_of (ord c + 32) else c)"

definition parse_inf_or_nan :: "string \<Rightarrow> (pyfloat \<times> string) option" where
  "parse_inf_or_nan s =
     (let (neg, r) = parse_sign s in
      if map lower (take 3 r) = ''inf'' then
        Some (if neg then NegInf else PosInf,
              if map lower (take 5 (drop 3 r)) = ''inity'' then drop 8 r else drop 3 r)
      else if map lower (take 3 r) = ''nan'' then Some (NaN, drop 3 r)
      else None)"

definition float_inner :: "string \<Rightarrow> pyfloat option" where
  "float_inner s =
     (let t = rev (dropWhile c_isspace (rev (dropWhile c_isspace s))) in
      if t = [] then None
      else (case (case parse_decimal t of None \<Rightarrow> parse_inf_or_nan t | Some r \<Rightarrow> Some r) of
              None \<Rightarrow> None
            | Some (v, rest) \<Rightarrow> if rest = [] then Some v else None))"

text \<open>\<open>float(s)\<close>: \<open>None\<close> where Python raises ValueError.\<close>

definition py_float :: "string \<Rightarrow> pyfloat option" where
  "py_float s =
     (let a = to_ascii s in
      if CHR ''_'' \<notin> set a then float_inner a
      else (case drop_underscores (CHR 0x00) a of None \<Rightarrow> None
            | Some b \<Rightarrow> float_inner b))"

subsection \<open>The document and the errors\<close>

text \<open>
  A value of \<open>params\<close>: a scalar (a float, or the text that is not one), the mapping of
  a 1D statement, the table of a 2D statement. The errors are the exceptions that leave
  \<open>parse_dat\<close>: the ValueError the set branch raises itself, with the file name and the
  joined block in its message; the ValueError of \<open>float\<close>, whose message holds the
  string that was refused; the ValueError of \<open>list.index\<close>; an IndexError; the
  ValueError of an unpacking.
\<close>

datatype pvalue =
    Num pyfloat
  | Str string
  | Map1 "(string \<times> pyfloat) list"
  | Table "(string \<times> (string \<times> pyfloat) list) list"

record document =
  sets :: "(string \<times> string list) list"
  params :: "(string \<times> pvalue) list"

datatype error =
    MalformedSetBlock string string
  | CouldNotConvertToFloat string
  | NotInList string
  | IndexError
  | UnpackError

subsection \<open>The pieces of \<open>parse_dat\<close>\<close>

text \<open>\<open>_strip_comments\<close>: \<open>line.split("#", 1)[0].strip()\<close>\<close>

definition strip_comments :: "string \<Rightarrow> string" where
  "strip_comments line = strip (before_first ''#'' line)"

text \<open>
  The scalar pattern, matched from the start of the line:
  \<^verbatim>\<open>^param\s+([A-Za-z_]\w*)\s*=\s*([^;]+)\s*;\s*$\<close>.
  The result is (group 1, group 2). After the \<open>=\<close> the text up to the first \<open>;\<close>
  must not be empty and only white space may follow that \<open>;\<close>. Group 2 starts after
  the white space that follows \<open>=\<close> and runs to the \<open>;\<close>; when there is nothing but
  white space before the \<open>;\<close>, the matcher gives the last of it back to group 2.
\<close>

definition match_scalar :: "string \<Rightarrow> (string \<times> string) option" where
  "match_scalar line =
     (if \<not> startswith ''param'' line then None
      else let r1 = drop 5 line in
        if takeWhile isspace r1 = [] then None
        else (case dropWhile isspace r1 of [] \<Rightarrow> None
          | c # cs \<Rightarrow>
             if \<not> is_name_start c then None
             else (case dropWhile isspace (dropWhile is_word cs) of [] \<Rightarrow> None
               | e # r4 \<Rightarrow>
                  if e \<noteq> CHR ''='' then None
                  else let body = takeWhile (\<lambda>x. x \<noteq> CHR '';'') r4;
                           r5 = dropWhile (\<lambda>x. x \<noteq> CHR '';'') r4
                       in if body = [] \<or> r5 = [] \<or> \<not> list_all isspace (tl r5) then None
                          else Some (c # takeWhile is_word cs,
                                 if list_all isspace body then [last body]
                                 else dropWhile isspace body))))"

text \<open>
  The accumulation of a block: lines are taken while the last line of the block holds no
  \<open>;\<close> and lines remain. The first argument is that last line; the result is the lines
  added to the block and the lines left for the scanner.
\<close>

fun collect_block :: "string \<Rightarrow> string list \<Rightarrow> string list \<times> string list" where
  "collect_block cur [] = ([], [])"
| "collect_block cur (l # ls) =
     (if CHR '';'' \<in> set cur then ([], l # ls)
      else (case collect_block l ls of (b, r) \<Rightarrow> (l # b, r)))"

text \<open>The set branch, on the block \<open>line # added\<close>: the text \<open>joined\<close> (after the
  replacement of \<open>:=\<close>), the tokens, and the name with the elements.\<close>

definition set_joined :: "string \<Rightarrow> string list \<Rightarrow> string" where
  "set_joined line added =
     replace_assign '' := '' (join '' '' (map strip_comments (line # added)))"

definition set_tokens :: "string \<Rightarrow> string list \<Rightarrow> string list" where
  "set_tokens line added = split_ws (replace_char (CHR '';'') '' ; '' (set_joined line added))"

definition parse_set_block :: "string \<Rightarrow> string \<Rightarrow> string list \<Rightarrow> error + (string \<times> string list)" where
  "parse_set_block fname line added =
     (let tokens = set_tokens line added
      in if length tokens < 2 then Inl IndexError
         else (case index_of '':='' tokens of
                 None \<Rightarrow> Inl (MalformedSetBlock fname (set_joined line added))
               | Some k \<Rightarrow>
                  (case index_of '';'' tokens of
                     None \<Rightarrow> Inl (NotInList '';'')
                   | Some j \<Rightarrow> Inr (tokens ! 1, slice (k + 1) j tokens))))"

text \<open>The tokens of a data line: comment stripped by the caller, \<open>;\<close> and tab replaced
  by a blank, then split.\<close>

definition data_parts :: "string \<Rightarrow> string list" where
  "data_parts dl =
     split_ws (replace_char (CHR 0x09) '' ''
       (if CHR '';'' \<in> set dl then replace_char (CHR '';'') '' '' dl else dl))"

text \<open>The loop over the data lines of a 1D block.\<close>

fun param_1d_lines :: "string list \<Rightarrow> (string \<times> pyfloat) list \<Rightarrow> error + (string \<times> pyfloat) list" where
  "param_1d_lines [] mapping = Inr mapping"
| "param_1d_lines (dl # dls) mapping =
     (if strip_comments dl = [] then param_1d_lines dls mapping
      else let parts = data_parts (strip_comments dl) in
        if 2 \<le> length parts then
          (case py_float (parts ! 1) of
             None \<Rightarrow> Inl (CouldNotConvertToFloat (parts ! 1))
           | Some v \<Rightarrow> param_1d_lines dls (AList.update (parts ! 0) v mapping))
        else param_1d_lines dls mapping)"

text \<open>The name of a 1D statement, from its first line:
  \<open>first.split()[1].split(":=")[0].strip()\<close>.\<close>

definition param_1d_name :: "string \<Rightarrow> error + string" where
  "param_1d_name line =
     (let ws = split_ws (strip_comments line) in
      if length ws < 2 then Inl IndexError
      else Inr (strip (before_first '':='' (ws ! 1))))"

definition parse_param_1d :: "string \<Rightarrow> string list \<Rightarrow> error + (string \<times> pvalue)" where
  "parse_param_1d line added =
     (case param_1d_name line of
        Inl e \<Rightarrow> Inl e
      | Inr name \<Rightarrow>
         (case param_1d_lines added [] of
            Inl e \<Rightarrow> Inl e
          | Inr mapping \<Rightarrow> Inr (name, Map1 mapping)))"

text \<open>The dictionary of one row: \<open>{cols[j]: float(vals[j]) for j in range(len(cols))}\<close>,
  called with as many values as columns.\<close>

fun row_dict :: "string list \<Rightarrow> string list \<Rightarrow> (string \<times> pyfloat) list \<Rightarrow> error + (string \<times> pyfloat) list" where
  "row_dict (c # cs) (v # vs) acc =
     (case py_float v of
        None \<Rightarrow> Inl (CouldNotConvertToFloat v)
      | Some x \<Rightarrow> row_dict cs vs (AList.update c x acc))"
| "row_dict cs vs acc = Inr acc"

text \<open>The loop over the data lines of a 2D block.\<close>

fun table_lines :: "string list \<Rightarrow> string list \<Rightarrow> (string \<times> (string \<times> pyfloat) list) list
    \<Rightarrow> error + (string \<times> (string \<times> pyfloat) list) list" where
  "table_lines cols [] table = Inr table"
| "table_lines cols (dl # dls) table =
     (if strip_comments dl = [] then table_lines cols dls table
      else let parts = data_parts (strip_comments dl) in
        if parts = [] then table_lines cols dls table
        else let vals = slice 1 (1 + length cols) parts in
          if length vals \<noteq> length cols then table_lines cols dls table
          else (case row_dict cols vals [] of
                  Inl e \<Rightarrow> Inl e
                | Inr d \<Rightarrow> table_lines cols dls (AList.update (parts ! 0) d table)))"

text \<open>The name and the columns of a 2D statement, from its header line.\<close>

definition table_header :: "string \<Rightarrow> error + (string \<times> string list)" where
  "table_header line =
     (case split1 '':'' (drop 6 (strip_comments line)) of
        [name_part, rest] \<Rightarrow>
          Inr (strip name_part,
               filter (\<lambda>c. c \<noteq> [])
                 (split_ws (replace_char (CHR 0x09) '' '' (strip (before_first '':='' rest)))))
      | _ \<Rightarrow> Inl UnpackError)"

definition parse_param_2d :: "string \<Rightarrow> string list \<Rightarrow> error + (string \<times> pvalue)" where
  "parse_param_2d line added =
     (case table_header line of
        Inl e \<Rightarrow> Inl e
      | Inr (name, cols) \<Rightarrow>
         (case table_lines cols added [] of
            Inl e \<Rightarrow> Inl e
          | Inr table \<Rightarrow> Inr (name, Table table)))"

text \<open>
  The kind of statement the scanner sees in a line whose comment is stripped, decided in
  the order of the tests of \<open>parse_dat\<close>: a blank line, the scalar pattern (with its two
  groups), the prefix \<open>set \<close>, the two tests on \<open>param \<close>, anything else.
\<close>

datatype stmt_kind = Blank | Scalar string string | SetBlock | Param1D | Param2D | Unknown

definition classify :: "string \<Rightarrow> stmt_kind" where
  "classify line =
     (if line = [] then Blank
      else (case match_scalar line of
        Some (name, g2) \<Rightarrow> Scalar name g2
      | None \<Rightarrow>
          if startswith ''set '' line then SetBlock
          else if startswith ''param '' line \<and> contains '':='' line
                  \<and> \<not> contains '':'' (before_first '':='' line) then Param1D
          else if startswith ''param '' line \<and> contains '':='' line
                  \<and> contains '':'' (before_first '':='' line) then Param2D
          else Unknown))"

text \<open>
  One turn of the \<open>while\<close> loop of \<open>parse_dat\<close>, on the line under the cursor and the
  lines after it: the lines left for the next turn and the document. The cursor \<open>i\<close> of
  the source is the number of lines already consumed.
\<close>

definition parse_stmt :: "string \<Rightarrow> string \<Rightarrow> string list \<Rightarrow> document \<Rightarrow> error + (string list \<times> document)" where
  "parse_stmt fname raw rest doc =
     (let line = strip_comments raw in
      case classify line of
        Blank \<Rightarrow> Inr (rest, doc)
      | Scalar name g2 \<Rightarrow>
          Inr (rest, doc\<lparr>params := AList.update name
                 (case py_float (strip g2) of Some v \<Rightarrow> Num v | None \<Rightarrow> Str (strip g2))
                 (params doc)\<rparr>)
      | SetBlock \<Rightarrow>
          (case parse_set_block fname line (fst (collect_block line rest)) of
             Inl e \<Rightarrow> Inl e
           | Inr (name, elems) \<Rightarrow>
               Inr (snd (collect_block line rest),
                    doc\<lparr>sets := AList.update name elems (sets doc)\<rparr>))
      | Param1D \<Rightarrow>
          (case parse_param_1d line (fst (collect_block line rest)) of
             Inl e \<Rightarrow> Inl e
           | Inr (name, mapping) \<Rightarrow>
               Inr (snd (collect_block line rest),
                    doc\<lparr>params := AList.update name mapping (params doc)\<rparr>))
      | Param2D \<Rightarrow>
          (case parse_param_2d line (fst (collect_block line rest)) of
             Inl e \<Rightarrow> Inl e
           | Inr (name, table) \<Rightarrow>
               Inr (snd (collect_block line rest),
                    doc\<lparr>params := AList.update name table (params doc)\<rparr>))
      | Unknown \<Rightarrow> Inr (rest, doc))"

lemma collect_block_length: "length (snd (collect_block cur ls)) \<le> length ls"
proof (induction ls arbitrary: cur)
  case Nil
  then show ?case by simp
next
  case (Cons l ls)
  from Cons [of l] show ?case
    by (cases "collect_block l ls") auto
qed

lemma parse_stmt_length:
  "parse_stmt fname raw rest doc = Inr (rest', doc') \<Longrightarrow> length rest' \<le> length rest"
  using collect_block_length [of "strip_comments raw" rest]
  by (auto simp: parse_stmt_def Let_def split: stmt_kind.splits sum.splits prod.splits)

text \<open>The \<open>while\<close> loop, and \<open>parse_dat\<close> on the name of the file and its text.\<close>

function parse_lines :: "string \<Rightarrow> string list \<Rightarrow> document \<Rightarrow> error + document" where
  "parse_lines fname [] doc = Inr doc"
| "parse_lines fname (raw # rest) doc =
     (case parse_stmt fname raw rest doc of
        Inl e \<Rightarrow> Inl e
      | Inr (rest', doc') \<Rightarrow> parse_lines fname rest' doc')"
  by pat_completeness auto
termination
  by (relation "measure (\<lambda>(fname, ls, doc). length ls)")
     (auto dest: parse_stmt_length intro: le_imp_less_Suc)

definition parse_dat :: "string \<Rightarrow> string \<Rightarrow> error + document" where
  "parse_dat fname text = parse_lines fname (splitlines text) \<lparr>sets = [], params = []\<rparr>"



subsection \<open>Notions used in the statements\<close>

text \<open>The key and the value token that a data line gives to a 1D block: its first two
  tokens, when it has two. \<open>store_all\<close> writes a list of pairs into a dictionary, in
  order.\<close>

definition line_pair :: "string \<Rightarrow> (string \<times> string) option" where
  "line_pair dl = (case data_parts (strip_comments dl) of
      k # v # rest \<Rightarrow> Some (k, v) | _ \<Rightarrow> None)"

definition store_all :: "('k \<times> 'v) list \<Rightarrow> ('k \<times> 'v) list \<Rightarrow> ('k \<times> 'v) list" where
  "store_all m kvs = foldl (\<lambda>m (k, v). AList.update k v m) m kvs"


text \<open>The row that a data line gives to a table with the columns \<open>cols\<close>: its first
  token and the next \<open>length cols\<close> tokens, when it has that many.\<close>

definition table_row :: "string list \<Rightarrow> string \<Rightarrow> (string \<times> string list) option" where
  "table_row cols dl = (case data_parts (strip_comments dl) of
      [] \<Rightarrow> None
    | r # vs \<Rightarrow> if length cols \<le> length vs then Some (r, take (length cols) vs) else None)"


text \<open>A run of white space (possibly empty), and a name of the scalar pattern:
  \<open>[A-Za-z_]\w*\<close>.\<close>

definition blank :: "string \<Rightarrow> bool" where
  "blank s = list_all isspace s"

definition is_name :: "string \<Rightarrow> bool" where
  "is_name n = (case n of [] \<Rightarrow> False | c # cs \<Rightarrow> is_name_start c \<and> list_all is_word cs)"


text \<open>A name as it stands in the header of a block: not empty, without white space,
  \<open>:\<close> or \<open>=\<close>.\<close>

definition plain_name :: "string \<Rightarrow> bool" where
  "plain_name n = (n \<noteq> [] \<and> list_all (\<lambda>c. \<not> isspace c \<and> c \<noteq> CHR '':'' \<and> c \<noteq> CHR ''='') n)"


text \<open>The entry that a statement writes, known from its first line and its block: the
  top-level mapping and the name. \<open>entry\<close> reads such an entry in a document.\<close>

datatype target = InSets string | InParams string

datatype entry_value = SetValue "string list" | ParamValue pvalue

definition stmt_target :: "string \<Rightarrow> string list \<Rightarrow> target option" where
  "stmt_target line added =
     (case classify line of
        Scalar name g2 \<Rightarrow> Some (InParams name)
      | SetBlock \<Rightarrow> (case set_tokens line added of
                      t0 # name # ts \<Rightarrow> Some (InSets name) | _ \<Rightarrow> None)
      | Param1D \<Rightarrow> (case param_1d_name line of Inr name \<Rightarrow> Some (InParams name) | Inl e \<Rightarrow> None)
      | Param2D \<Rightarrow> (case table_header line of Inr (name, cols) \<Rightarrow> Some (InParams name) | Inl e \<Rightarrow> None)
      | _ \<Rightarrow> None)"

fun entry :: "target \<Rightarrow> document \<Rightarrow> entry_value option" where
  "entry (InSets n) d = map_option SetValue (map_of (sets d) n)"
| "entry (InParams n) d = map_option ParamValue (map_of (params d) n)"


text \<open>\<open>normalise\<close> is the two replacements the set branch makes before it splits
  the joined text. The tokens of a line of a set statement are the tokens of its text
  without the comment, where \<open>:=\<close> and \<open>;\<close> are tokens of their own whether or
  not white space stands around them.\<close>

definition normalise :: "string \<Rightarrow> string" where
  "normalise s = replace_char (CHR '';'') '' ; '' (replace_assign '' := '' s)"

definition line_tokens :: "string \<Rightarrow> string list" where
  "line_tokens l = split_ws (normalise (strip_comments l))"


section \<open>Lemmas on the string operations\<close>

lemma split_acc_append_space:
  "isspace sp \<Longrightarrow> split_acc w (a @ sp # b) = split_acc w a @ split_acc [] b"
  by (induction a arbitrary: w) auto

lemma split_ws_append_space:
  "isspace sp \<Longrightarrow> split_ws (a @ sp # b) = split_ws a @ split_ws b"
  by (simp add: split_ws_def split_acc_append_space)

lemma split_acc_word:
  "\<forall>c\<in>set t. \<not> isspace c \<Longrightarrow> split_acc w t = (if w @ t = [] then [] else [w @ t])"
  by (induction t arbitrary: w) auto

lemma split_ws_word:
  "\<forall>c\<in>set t. \<not> isspace c \<Longrightarrow> t \<noteq> [] \<Longrightarrow> split_ws t = [t]"
  by (simp add: split_ws_def split_acc_word)

lemma split_ws_Nil [simp]: "split_ws [] = []"
  by (simp add: split_ws_def)

lemma split_ws_space_Cons: "isspace sp \<Longrightarrow> split_ws (sp # b) = split_ws b"
  using split_ws_append_space [of sp "[]" b] by simp

lemma split_acc_chars:
  "set (concat (split_acc w s)) = set w \<union> {c \<in> set s. \<not> isspace c}"
  by (induction s arbitrary: w) auto

lemma split_ws_chars: "set (concat (split_ws s)) = {c \<in> set s. \<not> isspace c}"
  unfolding split_ws_def by (simp only: split_acc_chars) simp

lemma split_acc_tokens_all:
  "\<forall>c\<in>set w. \<not> isspace c \<Longrightarrow>
   \<forall>t\<in>set (split_acc w s). t \<noteq> [] \<and> (\<forall>c\<in>set t. \<not> isspace c)"
proof (induction s arbitrary: w)
  case Nil
  then show ?case by simp
next
  case (Cons a s)
  have e: "\<forall>t\<in>set (split_acc [] s). t \<noteq> [] \<and> (\<forall>c\<in>set t. \<not> isspace c)"
    by (rule Cons.IH) simp
  show ?case
  proof (cases "isspace a")
    case True
    have "set (split_acc w (a # s)) \<subseteq> insert w (set (split_acc [] s)) \<and>
          (w = [] \<longrightarrow> set (split_acc w (a # s)) \<subseteq> set (split_acc [] s))"
      using True by auto
    then show ?thesis using e Cons.prems by blast
  next
    case False
    have "\<forall>c\<in>set (w @ [a]). \<not> isspace c" using False Cons.prems by simp
    then have "\<forall>t\<in>set (split_acc (w @ [a]) s). t \<noteq> [] \<and> (\<forall>c\<in>set t. \<not> isspace c)"
      by (rule Cons.IH)
    then show ?thesis using False by simp
  qed
qed

lemma split_acc_tokens:
  "\<forall>c\<in>set w. \<not> isspace c \<Longrightarrow> t \<in> set (split_acc w s) \<Longrightarrow> t \<noteq> [] \<and> (\<forall>c\<in>set t. \<not> isspace c)"
proof -
  assume w: "\<forall>c\<in>set w. \<not> isspace c" and t: "t \<in> set (split_acc w s)"
  from split_acc_tokens_all [OF w, of s] t show ?thesis by (rule bspec)
qed

lemma split_ws_tokens:
  "t \<in> set (split_ws s) \<Longrightarrow> t \<noteq> [] \<and> (\<forall>c\<in>set t. \<not> isspace c)"
  using split_acc_tokens [of "[]" t s] by (simp add: split_ws_def)

lemma split_ws_token_chars: "t \<in> set (split_ws s) \<Longrightarrow> set t \<subseteq> set s"
  using split_ws_chars [of s] by auto

lemma split_ws_empty_iff: "split_ws s = [] \<longleftrightarrow> (\<forall>c\<in>set s. isspace c)"
proof
  assume "split_ws s = []"
  then have "{c \<in> set s. \<not> isspace c} = {}" using split_ws_chars [of s] by simp
  then show "\<forall>c\<in>set s. isspace c" by auto
next
  assume "\<forall>c\<in>set s. isspace c"
  then have "set (concat (split_ws s)) = {}" using split_ws_chars [of s] by auto
  moreover have "\<forall>t\<in>set (split_ws s). t \<noteq> []" using split_ws_tokens by blast
  ultimately show "split_ws s = []" by (cases "split_ws s") auto
qed

lemma split_ws_dropWhile: "split_ws (dropWhile isspace s) = split_ws s"
  by (induction s) (auto simp: split_ws_space_Cons)

lemma split_ws_snoc_space: "isspace sp \<Longrightarrow> split_ws (a @ [sp]) = split_ws a"
  using split_ws_append_space [of sp a "[]"] by simp

lemma split_ws_rev_dropWhile: "split_ws (rev (dropWhile isspace (rev s))) = split_ws s"
proof (induction s rule: rev_induct)
  case Nil
  then show ?case by simp
next
  case (snoc x xs)
  then show ?case by (auto simp: split_ws_snoc_space)
qed

lemma split_ws_strip: "split_ws (strip s) = split_ws s"
  by (simp add: strip_def split_ws_rev_dropWhile split_ws_dropWhile)

lemma dropWhile_snoc_keep: "\<not> P x \<Longrightarrow> dropWhile P (ys @ [x]) = dropWhile P ys @ [x]"
  by (induction ys) auto

lemma strip_all_space: "\<forall>c\<in>set s. isspace c \<Longrightarrow> strip s = []"
proof -
  assume "\<forall>c\<in>set s. isspace c"
  then have d: "dropWhile isspace s = []" by simp
  show ?thesis unfolding strip_def d by simp
qed

lemma strip_Cons:
  "dropWhile isspace s = x # xs \<Longrightarrow>
     \<not> isspace x \<and> strip s = x # rev (dropWhile isspace (rev xs))"
proof -
  assume c: "dropWhile isspace s = x # xs"
  have nx: "\<not> isspace x" using hd_dropWhile [of isspace s] c by simp
  have "strip s = rev (dropWhile isspace (rev xs @ [x]))"
    unfolding strip_def c by simp
  also have "\<dots> = x # rev (dropWhile isspace (rev xs))"
    using nx by (simp add: dropWhile_snoc_keep)
  finally show ?thesis using nx by simp
qed

lemma strip_Nil_iff: "strip s = [] \<longleftrightarrow> (\<forall>c\<in>set s. isspace c)"
proof (cases "dropWhile isspace s")
  case Nil
  then show ?thesis using strip_all_space [of s] by simp
next
  case (Cons x xs)
  then have "\<not> (\<forall>c\<in>set s. isspace c)" by (metis dropWhile_eq_Nil_conv list.distinct(1))
  then show ?thesis using strip_Cons [OF Cons] by simp
qed

lemma set_strip: "set (strip s) \<subseteq> set s"
proof -
  have "set (strip s) \<subseteq> set (dropWhile isspace s)"
    unfolding strip_def using set_dropWhileD [of _ isspace "rev (dropWhile isspace s)"] by auto
  then show ?thesis using set_dropWhileD [of _ isspace s] by blast
qed

lemma strip_hd: "strip s \<noteq> [] \<Longrightarrow> \<not> isspace (hd (strip s))"
proof (cases "dropWhile isspace s")
  case Nil
  assume "strip s \<noteq> []"
  then show ?thesis using Nil strip_all_space [of s] by simp
next
  case (Cons x xs)
  then show ?thesis using strip_Cons [OF Cons] by simp
qed

lemma strip_last: "strip s \<noteq> [] \<Longrightarrow> \<not> isspace (last (strip s))"
proof -
  assume a: "strip s \<noteq> []"
  define r where "r = dropWhile isspace (rev (dropWhile isspace s))"
  have s: "strip s = rev r" unfolding strip_def r_def by simp
  have r: "r \<noteq> []" using a s by simp
  then have "\<not> isspace (hd r)" unfolding r_def using hd_dropWhile by blast
  moreover have "last (strip s) = hd r" using r s by (simp add: last_rev)
  ultimately show ?thesis by simp
qed

lemma strip_id: "s \<noteq> [] \<Longrightarrow> \<not> isspace (hd s) \<Longrightarrow> \<not> isspace (last s) \<Longrightarrow> strip s = s"
proof -
  assume s: "s \<noteq> []" and h: "\<not> isspace (hd s)" and l: "\<not> isspace (last s)"
  have 1: "dropWhile isspace s = s" using s h by (cases s) auto
  have "rev s \<noteq> []" "\<not> isspace (hd (rev s))" using s l by (simp_all add: hd_rev)
  then have "dropWhile isspace (rev s) = rev s" by (cases "rev s") auto
  then show ?thesis unfolding strip_def 1 by simp
qed

lemma strip_strip: "strip (strip s) = strip s"
proof (cases "strip s = []")
  case True
  then show ?thesis by (simp add: strip_all_space)
next
  case False
  from False strip_hd [OF False] strip_last [OF False] show ?thesis by (rule strip_id)
qed

lemma find_sub_char: "find_sub [c] s = (if c \<in> set s then Some (length (takeWhile (\<lambda>x. x \<noteq> c) s)) else None)"
  by (induction s) (auto simp: startswith_def)

lemma takeWhile_neq_id: "c \<notin> set s \<Longrightarrow> takeWhile (\<lambda>x. x \<noteq> c) s = s"
  by (induction s) auto

lemma before_first_char: "before_first [c] s = takeWhile (\<lambda>x. x \<noteq> c) s"
proof (cases "c \<in> set s")
  case True
  have "take (length (takeWhile (\<lambda>x. x \<noteq> c) s)) s = takeWhile (\<lambda>x. x \<noteq> c) s"
    by (induction s) auto
  then show ?thesis using True by (simp add: before_first_def find_sub_char)
next
  case False
  then show ?thesis by (simp add: before_first_def find_sub_char takeWhile_neq_id)
qed

lemma contains_char: "contains [c] s \<longleftrightarrow> c \<in> set s"
  by (simp add: contains_def find_sub_char)

lemma set_before_first: "set (before_first sep s) \<subseteq> set s"
  by (auto simp: before_first_def split: option.splits dest: in_set_takeD)

lemma strip_comments_no_hash: "CHR ''#'' \<notin> set (strip_comments l)"
proof -
  have "CHR ''#'' \<notin> set (takeWhile (\<lambda>x. x \<noteq> CHR ''#'') l)"
    by (auto dest: set_takeWhileD)
  then show ?thesis
    unfolding strip_comments_def before_first_char using set_strip by blast
qed

lemma set_strip_comments: "set (strip_comments l) \<subseteq> set l"
  unfolding strip_comments_def using set_strip [of "before_first ''#'' l"] set_before_first [of "''#''" l]
  by blast

lemma strip_comments_plain: "CHR ''#'' \<notin> set l \<Longrightarrow> strip_comments l = strip l"
proof -
  assume "CHR ''#'' \<notin> set l"
  then show ?thesis by (simp add: strip_comments_def before_first_char takeWhile_neq_id)
qed

lemma strip_comments_idem: "strip_comments (strip_comments l) = strip_comments l"
proof -
  have "strip_comments (strip_comments l) = strip (strip_comments l)"
    by (rule strip_comments_plain) (rule strip_comments_no_hash)
  then show ?thesis by (simp add: strip_comments_def strip_strip)
qed

lemma strip_comments_last: "strip_comments l \<noteq> [] \<Longrightarrow> \<not> isspace (last (strip_comments l))"
  unfolding strip_comments_def by (rule strip_last)

lemma strip_comments_hd: "strip_comments l \<noteq> [] \<Longrightarrow> \<not> isspace (hd (strip_comments l))"
  unfolding strip_comments_def by (rule strip_hd)

lemma replace_char_append: "replace_char c new (a @ b) = replace_char c new a @ replace_char c new b"
  by (simp add: replace_char_def)

lemma replace_char_none: "c \<notin> set s \<Longrightarrow> replace_char c new s = s"
  by (induction s) (auto simp: replace_char_def)

lemma set_replace_char_sup: "c \<in> set new \<Longrightarrow> set s \<subseteq> set (replace_char c new s)"
  by (induction s) (auto simp: replace_char_def)

lemma set_replace_char_sub: "set (replace_char c new s) \<subseteq> set s \<union> set new"
  by (induction s) (auto simp: replace_char_def)

lemma replace_assign_space:
  "sp \<noteq> CHR '':'' \<Longrightarrow> sp \<noteq> CHR ''='' \<Longrightarrow>
   replace_assign new (a @ sp # b) = replace_assign new a @ sp # replace_assign new b"
proof (induction new a rule: replace_assign.induct)
qed (cases b; simp)+

lemma set_replace_assign_sub: "set (replace_assign new s) \<subseteq> set s \<union> set new"
  by (induction new s rule: replace_assign.induct) auto

lemma set_replace_assign_sup:
  "CHR '':'' \<in> set new \<Longrightarrow> CHR ''='' \<in> set new \<Longrightarrow> set s \<subseteq> set (replace_assign new s)"
  by (induction new s rule: replace_assign.induct) auto

section \<open>Lemmas on the scanner and the set branch\<close>

lemma startswith_iff: "startswith p s \<longleftrightarrow> (\<exists>r. s = p @ r)"
proof
  assume "startswith p s"
  then have "s = p @ drop (length p) s"
    unfolding startswith_def by (metis append_take_drop_id)
  then show "\<exists>r. s = p @ r" ..
next
  assume "\<exists>r. s = p @ r"
  then show "startswith p s" by (auto simp: startswith_def)
qed

lemma join_Cons: "join sep (x # xs) = x @ concat (map (\<lambda>y. sep @ y) xs)"
  by (induction xs arbitrary: x) auto


lemma collect_block_now: "CHR '';'' \<in> set cur \<Longrightarrow> collect_block cur ls = ([], ls)"
  by (cases ls) auto

lemma collect_block_upto:
  "CHR '';'' \<notin> set cur \<Longrightarrow> \<forall>l\<in>set init. CHR '';'' \<notin> set l \<Longrightarrow> CHR '';'' \<in> set lastl \<Longrightarrow>
   collect_block cur (init @ lastl # post) = (init @ [lastl], post)"
proof (induction init arbitrary: cur)
  case Nil
  then show ?case by (simp add: collect_block_now)
next
  case (Cons a init)
  then show ?case by simp
qed

lemma match_scalar_not_param: "\<not> startswith ''param'' line \<Longrightarrow> match_scalar line = None"
  by (simp add: match_scalar_def)

lemma set_line_not_param: "startswith ''set '' line \<Longrightarrow> \<not> startswith ''param'' line"
  by (auto simp: startswith_iff)

lemma classify_set: "startswith ''set '' line \<Longrightarrow> classify line = SetBlock"
proof -
  assume a: "startswith ''set '' line"
  then have "line \<noteq> []" by (auto simp: startswith_iff)
  then show ?thesis
    using a by (simp add: classify_def match_scalar_not_param set_line_not_param)
qed

lemma parse_stmt_set:
  assumes "startswith ''set '' (strip_comments raw)"
  shows "parse_stmt fname raw rest doc =
     (case parse_set_block fname (strip_comments raw) (fst (collect_block (strip_comments raw) rest)) of
        Inl e \<Rightarrow> Inl e
      | Inr (name, elems) \<Rightarrow>
          Inr (snd (collect_block (strip_comments raw) rest),
               doc\<lparr>sets := AList.update name elems (sets doc)\<rparr>))"
  unfolding parse_stmt_def Let_def classify_set [OF assms] by simp

lemma set_tokens_shape:
  assumes "startswith ''set '' (strip_comments raw)"
  shows "\<exists>t ts. set_tokens (strip_comments raw) added = ''set'' # t # ts"
proof -
  let ?line = "strip_comments raw"
  obtain r where r: "?line = ''set '' @ r" using assms by (auto simp: startswith_iff)
  have ne: "?line \<noteq> []" using r by simp
  have "\<not> isspace (last ?line)" using ne by (rule strip_comments_last)
  moreover have "isspace (CHR '' '')" by (simp add: isspace_def)
  ultimately have rne: "r \<noteq> []" using r by auto
  then have lr: "last r = last ?line" using r by simp
  have nsp: "\<not> isspace (last r)" using lr ne strip_comments_last by simp
  define tl where "tl = r @ concat (map (\<lambda>y. '' '' @ y) (map strip_comments added))"
  have j0: "join '' '' (map strip_comments (?line # added)) =
      ?line @ concat (map (\<lambda>y. '' '' @ y) (map strip_comments added))"
    by (simp add: join_Cons strip_comments_idem)
  have j: "join '' '' (map strip_comments (?line # added)) = ''set'' @ CHR '' '' # tl"
    unfolding j0 tl_def by (simp add: r)
  have ra: "replace_assign '' := '' (''set'' @ CHR '' '' # tl) = ''set'' @ CHR '' '' # replace_assign '' := '' tl"
    by (subst replace_assign_space) simp_all
  define u where "u = replace_char (CHR '';'') '' ; '' (replace_assign '' := '' tl)"
  have rc: "replace_char (CHR '';'') '' ; '' (''set'' @ CHR '' '' # replace_assign '' := '' tl) = ''set'' @ CHR '' '' # u"
    by (simp add: replace_char_def u_def)
  have sp: "split_ws (''set'' @ CHR '' '' # u) = split_ws ''set'' @ split_ws u"
    by (rule split_ws_append_space) (simp add: isspace_def)
  have st: "split_ws ''set'' = [''set'']"
    by (simp add: split_ws_def isspace_def)
  have toks: "set_tokens ?line added = ''set'' # split_ws u"
    unfolding set_tokens_def set_joined_def j ra rc sp st by simp
  have "last r \<in> set tl" using rne by (simp add: tl_def)
  then have "last r \<in> set (replace_assign '' := '' tl)"
    using set_replace_assign_sup [of "'' := ''" tl] by auto
  then have "last r \<in> set u"
    unfolding u_def using set_replace_char_sup [of "CHR '';''" "'' ; ''"] by auto
  then have "split_ws u \<noteq> []" using nsp by (auto simp: split_ws_empty_iff)
  then obtain t ts where "split_ws u = t # ts" by (cases "split_ws u") auto
  then show ?thesis using toks by simp
qed

lemma index_of_None_iff: "index_of x xs = None \<longleftrightarrow> x \<notin> set xs"
  by (induction xs) auto







section \<open>Lemmas on the 1D branch\<close>

lemma data_parts_Nil: "data_parts [] = []"
  by (simp add: data_parts_def replace_char_def)

lemma param_1d_lines_step:
  "param_1d_lines (dl # dls) m =
     (case line_pair dl of
        None \<Rightarrow> param_1d_lines dls m
      | Some (k, v) \<Rightarrow>
         (case py_float v of
            None \<Rightarrow> Inl (CouldNotConvertToFloat v)
          | Some x \<Rightarrow> param_1d_lines dls (AList.update k x m)))"
proof (cases "data_parts (strip_comments dl)")
  case Nil
  then show ?thesis by (simp add: line_pair_def Let_def)
next
  case (Cons k t)
  note c = this
  then have ne: "strip_comments dl \<noteq> []" using data_parts_Nil by auto
  show ?thesis
  proof (cases t)
    case Nil
    then show ?thesis using c ne by (simp add: line_pair_def Let_def)
  next
    case (Cons v u)
    then show ?thesis using c ne by (simp add: line_pair_def Let_def nth_Cons' split: option.splits)
  qed
qed

lemma param_1d_lines_ok:
  "List.map_filter line_pair dls = kvs \<Longrightarrow> map (\<lambda>p. py_float (snd p)) kvs = map Some xs \<Longrightarrow>
   param_1d_lines dls m = Inr (store_all m (zip (map fst kvs) xs))"
proof (induction dls arbitrary: m kvs xs)
  case Nil
  then show ?case by (simp add: store_all_def map_filter_simps)
next
  case (Cons dl dls)
  show ?case
  proof (cases "line_pair dl")
    case None
    then have "List.map_filter line_pair dls = kvs" using Cons.prems(1) by (simp add: map_filter_simps)
    from Cons.IH [OF this Cons.prems(2)] show ?thesis
      unfolding param_1d_lines_step None by simp
  next
    case (Some kv)
    obtain k v where kv: "kv = (k, v)" by (cases kv)
    obtain kvs' where k': "kvs = (k, v) # kvs'" "List.map_filter line_pair dls = kvs'"
      using Cons.prems(1) Some kv by (auto simp: map_filter_simps)
    obtain x xs' where x: "xs = x # xs'" "py_float v = Some x" "map (\<lambda>p. py_float (snd p)) kvs' = map Some xs'"
      using Cons.prems(2) k'(1) by (cases xs) auto
    from Cons.IH [OF k'(2) x(3)] show ?thesis
      unfolding param_1d_lines_step Some kv by (simp add: x k' store_all_def)
  qed
qed

lemma param_1d_lines_bad:
  "List.map_filter line_pair dls = good @ (k, v) # others \<Longrightarrow>
   \<forall>p\<in>set good. py_float (snd p) \<noteq> None \<Longrightarrow> py_float v = None \<Longrightarrow>
   param_1d_lines dls m = Inl (CouldNotConvertToFloat v)"
proof (induction dls arbitrary: m good)
  case Nil
  then show ?case by (simp add: map_filter_simps)
next
  case (Cons dl dls)
  show ?case
  proof (cases "line_pair dl")
    case None
    then have "List.map_filter line_pair dls = good @ (k, v) # others"
      using Cons.prems(1) by (simp add: map_filter_simps)
    from Cons.IH [OF this Cons.prems(2,3)] show ?thesis
      unfolding param_1d_lines_step None by simp
  next
    case (Some kv)
    obtain k0 v0 where kv: "kv = (k0, v0)" by (cases kv)
    have e: "(k0, v0) # List.map_filter line_pair dls = good @ (k, v) # others"
      using Cons.prems(1) Some kv by (simp add: map_filter_simps)
    show ?thesis
    proof (cases good)
      case Nil
      then have "k0 = k" "v0 = v" using e by auto
      then show ?thesis using Cons.prems(3) unfolding param_1d_lines_step Some kv by simp
    next
      case (Cons g good')
      then have g: "g = (k0, v0)" "List.map_filter line_pair dls = good' @ (k, v) # others"
        using e by auto
      obtain x where x: "py_float v0 = Some x" using Cons.prems(2) Cons g(1) by auto
      have "\<forall>p\<in>set good'. py_float (snd p) \<noteq> None" using Cons.prems(2) Cons by simp
      from Cons.IH [OF g(2) this Cons.prems(3)] show ?thesis
        unfolding param_1d_lines_step Some kv by (simp add: x)
    qed
  qed
qed

lemma map_of_store_all:
  "map_of (store_all m kvs) k = (case map_of (rev kvs) k of Some v \<Rightarrow> Some v | None \<Rightarrow> map_of m k)"
proof (induction kvs arbitrary: m)
  case Nil
  then show ?case by (simp add: store_all_def)
next
  case (Cons a kvs)
  obtain k0 v0 where a: "a = (k0, v0)" by (cases a)
  have s: "store_all m (a # kvs) = store_all (AList.update k0 v0 m) kvs"
    by (simp add: store_all_def a)
  show ?case
    unfolding s Cons.IH [of "AList.update k0 v0 m"]
    by (simp add: a map_of_append AList.update_conv' map_add_def split: option.splits)
qed

lemma parse_stmt_1d:
  assumes "classify (strip_comments raw) = Param1D"
  shows "parse_stmt fname raw rest doc =
     (case parse_param_1d (strip_comments raw) (fst (collect_block (strip_comments raw) rest)) of
        Inl e \<Rightarrow> Inl e
      | Inr (name, mapping) \<Rightarrow>
          Inr (snd (collect_block (strip_comments raw) rest),
               doc\<lparr>params := AList.update name mapping (params doc)\<rparr>))"
  unfolding parse_stmt_def Let_def assms by simp

lemma find_sub_Some: "find_sub sub s = Some k \<Longrightarrow> s = take k s @ sub @ drop (k + length sub) s"
proof (induction s arbitrary: k)
  case Nil
  then show ?case by (simp split: if_splits)
next
  case (Cons c cs)
  show ?case
  proof (cases "startswith sub (c # cs)")
    case True
    then have "k = 0" using Cons.prems by simp
    then show ?thesis using True unfolding startswith_def by (metis append_take_drop_id take_0 append_Nil add_0)
  next
    case False
    then obtain j where j: "find_sub sub cs = Some j" "k = Suc j" using Cons.prems by auto
    from Cons.IH [OF j(1)] show ?thesis using j(2) by simp
  qed
qed

lemma contains_chars: "contains sub s \<Longrightarrow> set sub \<subseteq> set s"
proof -
  assume "contains sub s"
  then obtain k where "find_sub sub s = Some k" by (auto simp: contains_def)
  from find_sub_Some [OF this] have "set s = set (take k s) \<union> set sub \<union> set (drop (k + length sub) s)"
    by (metis set_append Un_assoc)
  then show ?thesis by blast
qed

lemma classify_Param1D_D:
  "classify line = Param1D \<Longrightarrow>
     startswith ''param '' line \<and> contains '':='' line \<and> \<not> contains '':'' (before_first '':='' line)"
  by (auto simp: classify_def split: if_splits option.splits)

lemma classify_Param2D_D:
  "classify line = Param2D \<Longrightarrow>
     startswith ''param '' line \<and> contains '':='' line \<and> contains '':'' (before_first '':='' line)"
  by (auto simp: classify_def split: if_splits option.splits)

lemma param_line_tokens:
  assumes "startswith ''param '' line" and "contains '':='' line"
  shows "\<exists>t ts. split_ws line = ''param'' # t # ts"
proof -
  obtain r where r: "line = ''param'' @ CHR '' '' # r" using assms(1) by (auto simp: startswith_iff)
  have "CHR '':'' \<in> set line" using contains_chars [OF assms(2)] by simp
  then have c: "CHR '':'' \<in> set r" using r by auto
  have sp: "split_ws line = split_ws ''param'' @ split_ws r"
    unfolding r by (rule split_ws_append_space) (simp add: isspace_def)
  have p: "split_ws ''param'' = [''param'']" by (simp add: split_ws_def isspace_def)
  have "\<not> isspace (CHR '':'')" by (simp add: isspace_def)
  then have "split_ws r \<noteq> []" using c by (auto simp: split_ws_empty_iff)
  then obtain t ts where "split_ws r = t # ts" by (cases "split_ws r") auto
  then show ?thesis unfolding sp p by simp
qed

lemma param_1d_name_ok:
  assumes "classify (strip_comments raw) = Param1D"
  shows "\<exists>name. param_1d_name (strip_comments raw) = Inr name"
proof -
  from classify_Param1D_D [OF assms] obtain t ts where
    "split_ws (strip_comments raw) = ''param'' # t # ts"
    using param_line_tokens by blast
  then show ?thesis by (simp add: param_1d_name_def strip_comments_idem)
qed

lemma all_Some_values:
  "\<forall>p\<in>set kvs. f p \<noteq> None \<Longrightarrow> map f kvs = map Some (map (\<lambda>p. the (f p)) kvs)"
  by (induction kvs) auto

lemma map_of_rev_values:
  "\<forall>p\<in>set kvs. h (snd p) \<noteq> None \<Longrightarrow>
   map_of (rev (zip (map fst kvs) (map (\<lambda>p. the (h (snd p))) kvs))) key =
     (case map_of (rev kvs) key of None \<Rightarrow> None | Some v \<Rightarrow> h v)"
proof -
  assume a: "\<forall>p\<in>set kvs. h (snd p) \<noteq> None"
  have z: "zip (map fst kvs) (map (\<lambda>p. the (h (snd p))) kvs) = map (\<lambda>(k, v). (k, the (h v))) kvs"
    by (induction kvs) auto
  have "map_of (rev (map (\<lambda>(k, v). (k, the (h v))) kvs)) key =
      map_option (\<lambda>v. the (h v)) (map_of (rev kvs) key)"
    by (simp add: rev_map map_of_map)
  also have "\<dots> = (case map_of (rev kvs) key of None \<Rightarrow> None | Some v \<Rightarrow> h v)"
  proof (cases "map_of (rev kvs) key")
    case None
    then show ?thesis by simp
  next
    case (Some v)
    then have "(key, v) \<in> set kvs" using map_of_SomeD [of "rev kvs" key v] by simp
    then have "h v \<noteq> None" using a by auto
    then show ?thesis using Some by auto
  qed
  finally show ?thesis unfolding z .
qed

lemma param_1d_result:
  assumes "classify (strip_comments raw) = Param1D"
    and "List.map_filter line_pair (fst (collect_block (strip_comments raw) rest)) = kvs"
    and "\<forall>p\<in>set kvs. py_float (snd p) \<noteq> None"
  shows "\<exists>name m. param_1d_name (strip_comments raw) = Inr name \<and>
          parse_stmt fname raw rest doc =
            Inr (snd (collect_block (strip_comments raw) rest),
                 doc\<lparr>params := AList.update name (Map1 m) (params doc)\<rparr>) \<and>
          (\<forall>key. map_of m key = (case map_of (rev kvs) key of None \<Rightarrow> None | Some v \<Rightarrow> py_float v))"
proof -
  obtain name where n: "param_1d_name (strip_comments raw) = Inr name"
    using param_1d_name_ok [OF assms(1)] by blast
  define xs where "xs = map (\<lambda>p. the (py_float (snd p))) kvs"
  have v: "map (\<lambda>p. py_float (snd p)) kvs = map Some xs"
    unfolding xs_def using assms(3) by (rule all_Some_values)
  define m where "m = store_all [] (zip (map fst kvs) xs)"
  have l: "param_1d_lines (fst (collect_block (strip_comments raw) rest)) [] = Inr m"
    unfolding m_def using assms(2) v by (rule param_1d_lines_ok)
  have p: "parse_stmt fname raw rest doc =
            Inr (snd (collect_block (strip_comments raw) rest),
                 doc\<lparr>params := AList.update name (Map1 m) (params doc)\<rparr>)"
    unfolding parse_stmt_1d [OF assms(1)] parse_param_1d_def n l by simp
  have "\<forall>key. map_of m key = (case map_of (rev kvs) key of None \<Rightarrow> None | Some v \<Rightarrow> py_float v)"
    unfolding m_def xs_def map_of_store_all using map_of_rev_values [OF assms(3)]
    by (simp split: option.splits)
  then show ?thesis using n p by blast
qed


section \<open>Lemmas on the 2D branch\<close>


lemma table_row_fst:
  "table_row cols dl = Some (r, vals) \<Longrightarrow> r = hd (data_parts (strip_comments dl)) \<and> length vals = length cols"
  by (auto simp: table_row_def split: list.splits if_splits)

lemma table_lines_step:
  "table_lines cols (dl # dls) t =
     (case table_row cols dl of
        None \<Rightarrow> table_lines cols dls t
      | Some (r, vals) \<Rightarrow>
         (case row_dict cols vals [] of
            Inl e \<Rightarrow> Inl e
          | Inr d \<Rightarrow> table_lines cols dls (AList.update r d t)))"
proof (cases "data_parts (strip_comments dl)")
  case Nil
  then show ?thesis by (simp add: table_row_def Let_def)
next
  case (Cons r vs)
  then have ne: "strip_comments dl \<noteq> []" using data_parts_Nil by auto
  show ?thesis
  proof (cases "length cols \<le> length vs")
    case True
    then show ?thesis using Cons ne
      by (simp add: table_row_def Let_def slice_def split: sum.splits)
  next
    case False
    then show ?thesis using Cons ne
      by (simp add: table_row_def Let_def slice_def)
  qed
qed



lemma parse_stmt_2d:
  assumes "classify (strip_comments raw) = Param2D"
  shows "parse_stmt fname raw rest doc =
     (case parse_param_2d (strip_comments raw) (fst (collect_block (strip_comments raw) rest)) of
        Inl e \<Rightarrow> Inl e
      | Inr (name, table) \<Rightarrow>
          Inr (snd (collect_block (strip_comments raw) rest),
               doc\<lparr>params := AList.update name table (params doc)\<rparr>))"
  unfolding parse_stmt_def Let_def assms by simp

lemma table_header_ok:
  assumes "classify (strip_comments raw) = Param2D"
  shows "\<exists>name cols. table_header (strip_comments raw) = Inr (name, cols)"
proof -
  let ?line = "strip_comments raw"
  from classify_Param2D_D [OF assms] have p: "startswith ''param '' ?line"
    and c: "contains '':'' (before_first '':='' ?line)" by simp_all
  obtain r where r: "?line = ''param '' @ r" using p by (auto simp: startswith_iff)
  have "CHR '':'' \<in> set (before_first '':='' ?line)" using c by (simp add: contains_char)
  then have "CHR '':'' \<in> set ?line" using set_before_first by blast
  then have "CHR '':'' \<in> set r" unfolding r by auto
  then obtain k where k: "find_sub '':'' r = Some k" by (simp add: find_sub_char)
  have "strip_comments ?line = ?line" by (rule strip_comments_idem)
  then have d: "drop 6 (strip_comments ?line) = r" using r by simp
  show ?thesis unfolding table_header_def d split1_def k by simp
qed

lemma row_dict_ok:
  "length vals = length cols \<Longrightarrow> \<forall>v\<in>set vals. py_float v \<noteq> None \<Longrightarrow>
   \<exists>d. row_dict cols vals acc = Inr d"
proof (induction cols vals acc rule: row_dict.induct)
  case (1 c cs v vs acc)
  then obtain x where "py_float v = Some x" by auto
  then show ?case using 1 by simp
qed simp_all

lemma row_dict_bad:
  "length cols = length (gv @ v # ov) \<Longrightarrow> \<forall>g\<in>set gv. py_float g \<noteq> None \<Longrightarrow> py_float v = None \<Longrightarrow>
   row_dict cols (gv @ v # ov) acc = Inl (CouldNotConvertToFloat v)"
proof (induction gv arbitrary: cols acc)
  case Nil
  then obtain c cs where "cols = c # cs" by (cases cols) auto
  then show ?case using Nil by simp
next
  case (Cons g gv)
  then obtain c cs where c: "cols = c # cs" by (cases cols) auto
  obtain x where x: "py_float g = Some x" using Cons.prems(2) by auto
  have "row_dict cs (gv @ v # ov) (AList.update c x acc) = Inl (CouldNotConvertToFloat v)"
    using Cons.prems c by (intro Cons.IH) auto
  then show ?case by (simp add: c x)
qed

lemma table_lines_bad:
  "List.map_filter (table_row cols) dls = goodrows @ (r, vals) # others \<Longrightarrow>
   \<forall>p\<in>set goodrows. \<forall>v\<in>set (snd p). py_float v \<noteq> None \<Longrightarrow>
   row_dict cols vals [] = Inl e \<Longrightarrow>
   table_lines cols dls t = Inl e"
proof (induction dls arbitrary: t goodrows)
  case Nil
  then show ?case by (simp add: map_filter_simps)
next
  case (Cons dl dls)
  show ?case
  proof (cases "table_row cols dl")
    case None
    then have "List.map_filter (table_row cols) dls = goodrows @ (r, vals) # others"
      using Cons.prems(1) by (simp add: map_filter_simps)
    from Cons.IH [OF this Cons.prems(2,3)] show ?thesis
      unfolding table_lines_step None by simp
  next
    case (Some a)
    obtain r0 v0 where a: "a = (r0, v0)" by (cases a)
    have e: "(r0, v0) # List.map_filter (table_row cols) dls = goodrows @ (r, vals) # others"
      using Cons.prems(1) Some a by (simp add: map_filter_simps)
    show ?thesis
    proof (cases goodrows)
      case Nil
      then have "r0 = r" "v0 = vals" using e by auto
      then show ?thesis using Cons.prems(3) unfolding table_lines_step Some a by simp
    next
      case (Cons g good')
      then have g: "g = (r0, v0)" "List.map_filter (table_row cols) dls = good' @ (r, vals) # others"
        using e by auto
      have "length v0 = length cols" using table_row_fst Some a by blast
      moreover have "\<forall>v\<in>set v0. py_float v \<noteq> None" using Cons.prems(2) Cons g(1) by auto
      ultimately obtain d where d: "row_dict cols v0 [] = Inr d" using row_dict_ok by blast
      have "\<forall>p\<in>set good'. \<forall>v\<in>set (snd p). py_float v \<noteq> None" using Cons.prems(2) Cons by simp
      from Cons.IH [OF g(2) this Cons.prems(3)] show ?thesis
        unfolding table_lines_step Some a by (simp add: d)
    qed
  qed
qed






section \<open>Lemmas on the scalar pattern\<close>

lemma space_not_word: "isspace c \<Longrightarrow> \<not> is_word c"
  by (auto simp: isspace_def is_word_def is_name_start_def is_digit_def ord_def)

lemma name_start_word: "is_name_start c \<Longrightarrow> is_word c"
  by (simp add: is_word_def)

lemma special_chars:
  "\<not> isspace (CHR ''#'')" "\<not> is_word (CHR ''#'')"
  "\<not> isspace (CHR ''='')" "\<not> is_word (CHR ''='')"
  "\<not> isspace (CHR '';'')" "\<not> is_word (CHR '';'')"
  "\<not> isspace (CHR '':'')" "\<not> is_word (CHR '':'')"
  by (simp_all add: isspace_def is_word_def is_name_start_def is_digit_def ord_def)

lemma takeWhile_stop:
  "\<forall>x\<in>set a. P x \<Longrightarrow> b = [] \<or> \<not> P (hd b) \<Longrightarrow> takeWhile P (a @ b) = a"
  by (induction a) (auto simp: takeWhile_eq_Nil_iff)

lemma dropWhile_stop:
  "\<forall>x\<in>set a. P x \<Longrightarrow> b = [] \<or> \<not> P (hd b) \<Longrightarrow> dropWhile P (a @ b) = b"
  by (induction a) (auto simp: dropWhile_eq_self_iff)

lemma strip_pad:
  assumes "\<forall>c\<in>set lead. isspace c" and "\<forall>c\<in>set trail. isspace c"
    and "core \<noteq> []" and "\<not> isspace (hd core)" and "\<not> isspace (last core)"
  shows "strip (lead @ core @ trail) = core"
proof -
  have 1: "dropWhile isspace (lead @ core @ trail) = core @ trail"
    using assms(1,3,4) by (intro dropWhile_stop) auto
  have "rev (core @ trail) = rev trail @ rev core" by simp
  moreover have "dropWhile isspace (rev trail @ rev core) = rev core"
    using assms(2,3,5) by (intro dropWhile_stop) (auto simp: hd_rev)
  ultimately show ?thesis unfolding strip_def 1 by simp
qed

lemma strip_dropWhile: "strip (dropWhile isspace s) = strip s"
  by (simp add: strip_def)

lemma match_scalar_parts:
  assumes "takeWhile isspace r1 \<noteq> []" and "dropWhile isspace r1 = c # r2" and "is_name_start c"
    and "dropWhile isspace (dropWhile is_word r2) = CHR ''='' # r4"
    and "takeWhile (\<lambda>x. x \<noteq> CHR '';'') r4 = body" and "body \<noteq> []"
    and "dropWhile (\<lambda>x. x \<noteq> CHR '';'') r4 = r5" and "r5 \<noteq> []" and "list_all isspace (tl r5)"
  shows "match_scalar (''param'' @ r1) =
     Some (c # takeWhile is_word r2,
           if list_all isspace body then [last body] else dropWhile isspace body)"
proof -
  have sw: "startswith ''param'' (''param'' @ r1)" by (simp add: startswith_def)
  have d: "drop 5 (''param'' @ r1) = r1" by simp
  show ?thesis
    using sw assms(1,3,6,8,9) by (simp add: match_scalar_def Let_def assms(2,4,5,7) del: dropWhile_eq_Nil_conv)
qed

lemma match_scalar_shape:
  assumes ws1: "ws1 \<noteq> []" "blank ws1" and nm: "is_name name" and ws2: "blank ws2"
    and body: "body \<noteq> []" "CHR '';'' \<notin> set body"
  shows "\<exists>g2. match_scalar (''param'' @ ws1 @ name @ ws2 @ ''='' @ body @ '';'') = Some (name, g2)
            \<and> strip g2 = strip body"
proof -
  obtain c cs where n: "name = c # cs" "is_name_start c" "\<forall>x\<in>set cs. is_word x"
    using nm by (auto simp: is_name_def list_all_iff split: list.splits)
  have s1: "\<forall>x\<in>set ws1. isspace x" and s2: "\<forall>x\<in>set ws2. isspace x"
    using ws1(2) ws2 by (simp_all add: blank_def list_all_iff)
  have nc: "\<not> isspace c" using n(2) name_start_word space_not_word by blast
  define r4 where "r4 = body @ '';''"
  define t where "t = CHR ''='' # r4"
  define r2 where "r2 = cs @ (ws2 @ t)"
  define r1 where "r1 = ws1 @ (c # r2)"
  have line: "''param'' @ ws1 @ name @ ws2 @ ''='' @ body @ '';'' = ''param'' @ r1"
    by (simp add: r1_def r2_def t_def r4_def n(1))
  have tw: "takeWhile isspace r1 = ws1"
    unfolding r1_def using s1 nc by (intro takeWhile_stop) auto
  have dw: "dropWhile isspace r1 = c # r2"
    unfolding r1_def using s1 nc by (intro dropWhile_stop) auto
  have nw: "ws2 @ t = [] \<or> \<not> is_word (hd (ws2 @ t))"
    using s2 space_not_word special_chars(4) by (cases ws2) (auto simp: t_def)
  have tk: "takeWhile is_word r2 = cs"
    unfolding r2_def using n(3) nw by (intro takeWhile_stop) auto
  have dk: "dropWhile is_word r2 = ws2 @ t"
    unfolding r2_def using n(3) nw by (intro dropWhile_stop) auto
  have de: "dropWhile isspace (dropWhile is_word r2) = CHR ''='' # r4"
  proof -
    have "dropWhile isspace (ws2 @ t) = t"
      using s2 special_chars(3) by (intro dropWhile_stop) (auto simp: t_def)
    then show ?thesis unfolding dk t_def .
  qed
  have tb: "takeWhile (\<lambda>x. x \<noteq> CHR '';'') r4 = body"
    unfolding r4_def using body(2) by (intro takeWhile_stop) auto
  have db: "dropWhile (\<lambda>x. x \<noteq> CHR '';'') r4 = '';''"
    unfolding r4_def using body(2) by (intro dropWhile_stop) auto
  define g2 where "g2 = (if list_all isspace body then [last body] else dropWhile isspace body)"
  have mm: "match_scalar (''param'' @ r1) = Some (c # takeWhile is_word r2, g2)"
    unfolding g2_def using _ dw n(2) de tb body(1) db
    by (rule match_scalar_parts) (simp_all add: tw ws1(1))
  have "match_scalar (''param'' @ ws1 @ name @ ws2 @ ''='' @ body @ '';'') = match_scalar (''param'' @ r1)"
    by (simp only: line)
  also have "\<dots> = Some (c # takeWhile is_word r2, g2)" by (rule mm)
  also have "\<dots> = Some (name, g2)" by (simp only: tk n(1))
  finally have m: "match_scalar (''param'' @ ws1 @ name @ ws2 @ ''='' @ body @ '';'') = Some (name, g2)" .
  have "strip g2 = strip body"
  proof (cases "list_all isspace body")
    case True
    then have a: "\<forall>x\<in>set body. isspace x" by (simp add: list_all_iff)
    then have "isspace (last body)" using body(1) by simp
    then have "strip [last body] = []" by (intro strip_all_space) simp
    moreover have "strip body = []" using a by (rule strip_all_space)
    ultimately show ?thesis using True by (simp add: g2_def)
  next
    case False
    then show ?thesis by (simp add: g2_def strip_dropWhile)
  qed
  then show ?thesis using m by blast
qed

lemma strip_comments_pad:
  assumes "blank lead" and "blank trail" and "cmt = [] \<or> hd cmt = CHR ''#''"
    and "core \<noteq> []" and "\<not> isspace (hd core)" and "\<not> isspace (last core)"
    and "CHR ''#'' \<notin> set core"
  shows "strip_comments (lead @ core @ trail @ cmt) = core"
proof -
  have l: "\<forall>x\<in>set lead. isspace x" and t: "\<forall>x\<in>set trail. isspace x"
    using assms(1,2) by (simp_all add: blank_def list_all_iff)
  have "\<forall>x\<in>set (lead @ core @ trail). x \<noteq> CHR ''#''"
    using l t assms(7) special_chars(1) by auto
  then have "takeWhile (\<lambda>x. x \<noteq> CHR ''#'') ((lead @ core @ trail) @ cmt) = lead @ core @ trail"
    using assms(3) by (intro takeWhile_stop) auto
  then have "before_first ''#'' (lead @ core @ trail @ cmt) = lead @ core @ trail"
    by (simp add: before_first_char)
  then show ?thesis
    unfolding strip_comments_def using strip_pad [OF l t assms(4,5,6)] by simp
qed


section \<open>Lemmas on the header of a 1D statement\<close>

lemma find_sub_first:
  "CHR '':'' \<notin> set a \<Longrightarrow> find_sub '':='' (a @ '':='' @ b) = Some (length a)"
  by (induction a) (auto simp: startswith_def)

lemma find_sub_absent: "CHR '':'' \<notin> set a \<Longrightarrow> find_sub '':='' a = None"
proof -
  assume a: "CHR '':'' \<notin> set a"
  have "\<not> contains '':='' a" using contains_chars [of "'':=''" a] a by auto
  then show ?thesis by (simp add: contains_def)
qed

lemma before_first_assign:
  "CHR '':'' \<notin> set a \<Longrightarrow> y = [] \<or> (\<exists>z. y = '':='' @ z) \<Longrightarrow> before_first '':='' (a @ y) = a"
proof -
  assume a: "CHR '':'' \<notin> set a" and y: "y = [] \<or> (\<exists>z. y = '':='' @ z)"
  show ?thesis
  proof (cases "y = []")
    case True
    then show ?thesis using find_sub_absent [OF a] by (simp add: before_first_def)
  next
    case False
    then obtain z where "y = '':='' @ z" using y by blast
    then show ?thesis using find_sub_first [OF a, of z] by (simp add: before_first_def)
  qed
qed

lemma split_acc_append_word:
  "\<forall>c\<in>set t. \<not> isspace c \<Longrightarrow> split_acc w (t @ s) = split_acc (w @ t) s"
  by (induction t arbitrary: w) auto

lemma split_acc_hd:
  "w \<noteq> [] \<Longrightarrow> \<exists>ts. split_acc w s = (w @ takeWhile (\<lambda>c. \<not> isspace c) s) # ts"
proof (induction s arbitrary: w)
  case Nil
  then show ?case by simp
next
  case (Cons a s)
  show ?case
  proof (cases "isspace a")
    case True
    then show ?thesis using Cons.prems by simp
  next
    case False
    have "w @ [a] \<noteq> []" by simp
    from Cons.IH [OF this] show ?thesis using False by simp
  qed
qed

lemma no_equals_after_name:
  assumes "\<forall>x\<in>set cs. \<not> isspace x \<and> x \<noteq> CHR ''=''" and "\<forall>x\<in>set ws2. isspace x"
  shows "\<exists>e r. dropWhile isspace (dropWhile is_word (cs @ ws2 @ CHR '':'' # rest)) = e # r \<and> e \<noteq> CHR ''=''"
  using assms(1)
proof (induction cs)
  case Nil
  have nw: "ws2 @ CHR '':'' # rest = [] \<or> \<not> is_word (hd (ws2 @ CHR '':'' # rest))"
    using assms(2) space_not_word special_chars(8) by (cases ws2) auto
  have "dropWhile is_word ([] @ (ws2 @ CHR '':'' # rest)) = ws2 @ CHR '':'' # rest"
    using nw by (intro dropWhile_stop) auto
  moreover have "dropWhile isspace (ws2 @ CHR '':'' # rest) = CHR '':'' # rest"
    using assms(2) special_chars(7) by (intro dropWhile_stop) auto
  ultimately show ?case by simp
next
  case (Cons x cs)
  show ?case
  proof (cases "is_word x")
    case True
    then show ?thesis using Cons by simp
  next
    case False
    then show ?thesis using Cons.prems by simp
  qed
qed

lemma header_1d_classify:
  assumes "line = ''param '' @ ws1 @ P @ ws2 @ '':='' @ tail"
    and "blank ws1" and "plain_name P" and "blank ws2"
  shows "classify line = Param1D"
proof -
  have s1: "\<forall>x\<in>set ws1. isspace x" and s2: "\<forall>x\<in>set ws2. isspace x"
    using assms(2,4) by (simp_all add: blank_def list_all_iff)
  obtain c cs where p: "P = c # cs" "\<forall>x\<in>set (c # cs). \<not> isspace x \<and> x \<noteq> CHR '':'' \<and> x \<noteq> CHR ''=''"
    using assms(3) by (cases P) (auto simp: plain_name_def list_all_iff)
  define a where "a = ''param '' @ ws1 @ P @ ws2"
  have la: "line = a @ '':='' @ tail" by (simp add: a_def assms(1))
  have na: "CHR '':'' \<notin> set a"
    unfolding a_def using s1 s2 p special_chars(7) by auto
  have f: "find_sub '':='' line = Some (length a)"
    unfolding la using na by (rule find_sub_first)
  have c1: "contains '':='' line" by (simp add: contains_def f)
  have bf: "before_first '':='' line = a" unfolding before_first_def f by (simp add: la)
  have c2: "\<not> contains '':'' (before_first '':='' line)"
    unfolding bf using na by (simp add: contains_char)
  have sp: "startswith ''param '' line" by (simp add: startswith_def assms(1))
  have ns: "\<not> startswith ''set '' line" by (simp add: startswith_def assms(1))
  have ne: "line \<noteq> []" by (simp add: assms(1))
  define r2 where "r2 = cs @ ws2 @ CHR '':'' # CHR ''='' # tail"
  define r1 where "r1 = (CHR '' '' # ws1) @ (c # r2)"
  have l1: "line = ''param'' @ r1" by (simp add: assms(1) r1_def r2_def p(1))
  have sw: "startswith ''param'' (''param'' @ r1)" by (simp add: startswith_def)
  have d5: "drop 5 (''param'' @ r1) = r1" by simp
  have dw: "dropWhile isspace r1 = c # r2"
    unfolding r1_def using s1 p(2) by (intro dropWhile_stop) (auto simp: isspace_def)
  obtain e r where e: "dropWhile isspace (dropWhile is_word r2) = e # r" "e \<noteq> CHR ''=''"
    unfolding r2_def using no_equals_after_name [of cs ws2 "CHR ''='' # tail"] p(2) s2 by auto
  have m: "match_scalar line = None"
    unfolding l1 using sw e(2) by (simp add: match_scalar_def Let_def dw e(1))
  show ?thesis unfolding classify_def m using ne ns sp c1 c2 by simp
qed

lemma header_1d_name:
  assumes "line = ''param '' @ ws1 @ P @ ws2 @ '':='' @ tail"
    and "blank ws1" and "plain_name P" and "blank ws2" and "strip_comments line = line"
  shows "param_1d_name line = Inr P"
proof -
  have s1: "\<forall>x\<in>set ws1. isspace x" and s2: "\<forall>x\<in>set ws2. isspace x"
    using assms(2,4) by (simp_all add: blank_def list_all_iff)
  have p: "P \<noteq> []" "\<forall>x\<in>set P. \<not> isspace x" "CHR '':'' \<notin> set P"
    using assms(3) by (auto simp: plain_name_def list_all_iff)
  define X where "X = ws2 @ '':='' @ tail"
  define Y where "Y = takeWhile (\<lambda>c. \<not> isspace c) X"
  have l: "line = ''param'' @ CHR '' '' # (ws1 @ (P @ X))" by (simp add: assms(1) X_def)
  have t1: "split_ws line = split_ws ''param'' @ split_ws (ws1 @ (P @ X))"
    unfolding l by (rule split_ws_append_space) (simp add: isspace_def)
  have t2: "split_ws ''param'' = [''param'']" by (simp add: split_ws_def isspace_def)
  have "dropWhile isspace (ws1 @ (P @ X)) = P @ X"
    using s1 p(1,2) by (intro dropWhile_stop) (cases P, auto)
  then have t3: "split_ws (ws1 @ (P @ X)) = split_ws (P @ X)"
    using split_ws_dropWhile [of "ws1 @ (P @ X)"] by simp
  have t4: "split_ws (P @ X) = split_acc P X"
    unfolding split_ws_def using split_acc_append_word [OF p(2), of "[]" X] by simp
  obtain ts where t5: "split_acc P X = (P @ Y) # ts"
    unfolding Y_def using split_acc_hd [OF p(1)] by blast
  have toks: "split_ws line = ''param'' # (P @ Y) # ts"
    unfolding t1 t2 t3 t4 t5 by simp
  have y: "Y = [] \<or> (\<exists>z. Y = '':='' @ z)"
  proof (cases ws2)
    case Nil
    then show ?thesis by (simp add: Y_def X_def isspace_def)
  next
    case (Cons s ws)
    then have "isspace s" using s2 by simp
    then show ?thesis by (simp add: Y_def X_def Cons)
  qed
  have bf: "before_first '':='' (P @ Y) = P" using p(3) y by (rule before_first_assign)
  have "\<not> isspace (hd P)" "\<not> isspace (last P)" using p(1,2) by simp_all
  then have st: "strip P = P" using p(1) by (intro strip_id)
  show ?thesis unfolding param_1d_name_def Let_def assms(5) toks by (simp add: bf st)
qed

section \<open>The effect of one statement\<close>

lemma parse_stmt_effect:
  assumes "parse_stmt fname raw rest d = Inr (r, d')"
    and "stmt_target (strip_comments raw) (fst (collect_block (strip_comments raw) rest)) = Some t"
  shows "(\<exists>n x. t = InSets n \<and>
            (\<forall>e. parse_stmt fname raw rest e = Inr (r, e\<lparr>sets := AList.update n x (sets e)\<rparr>))) \<or>
         (\<exists>n x. t = InParams n \<and>
            (\<forall>e. parse_stmt fname raw rest e = Inr (r, e\<lparr>params := AList.update n x (params e)\<rparr>)))"
proof (cases "classify (strip_comments raw)")
  case Blank
  then show ?thesis using assms(2) by (simp add: stmt_target_def)
next
  case (Scalar name g2)
  then have "t = InParams name" using assms(2) by (simp add: stmt_target_def)
  moreover have "r = rest" using assms(1) Scalar by (simp add: parse_stmt_def Let_def)
  ultimately show ?thesis using Scalar by (auto simp: parse_stmt_def Let_def)
next
  case SetBlock
  let ?line = "strip_comments raw"
  let ?added = "fst (collect_block ?line rest)"
  obtain name elems where p: "parse_set_block fname ?line ?added = Inr (name, elems)"
    "r = snd (collect_block ?line rest)"
    using assms(1) SetBlock by (auto simp: parse_stmt_def Let_def split: sum.splits)
  have "\<exists>t0 ts. set_tokens ?line ?added = t0 # name # ts"
    using p(1) unfolding parse_set_block_def Let_def
    by (cases "set_tokens ?line ?added"; cases "tl (set_tokens ?line ?added)")
       (auto split: option.splits if_splits)
  then have "t = InSets name" using assms(2) SetBlock by (auto simp: stmt_target_def)
  then show ?thesis using SetBlock p by (auto simp: parse_stmt_def Let_def)
next
  case Param1D
  let ?line = "strip_comments raw"
  let ?added = "fst (collect_block ?line rest)"
  obtain name v where p: "parse_param_1d ?line ?added = Inr (name, v)"
    "r = snd (collect_block ?line rest)"
    using assms(1) Param1D by (auto simp: parse_stmt_def Let_def split: sum.splits)
  have "param_1d_name ?line = Inr name"
    using p(1) by (auto simp: parse_param_1d_def split: sum.splits)
  then have "t = InParams name" using assms(2) Param1D by (auto simp: stmt_target_def)
  then show ?thesis using Param1D p by (auto simp: parse_stmt_def Let_def)
next
  case Param2D
  let ?line = "strip_comments raw"
  let ?added = "fst (collect_block ?line rest)"
  obtain name v where p: "parse_param_2d ?line ?added = Inr (name, v)"
    "r = snd (collect_block ?line rest)"
    using assms(1) Param2D by (auto simp: parse_stmt_def Let_def split: sum.splits)
  have "\<exists>cols. table_header ?line = Inr (name, cols)"
    using p(1) by (auto simp: parse_param_2d_def split: sum.splits)
  then have "t = InParams name" using assms(2) Param2D by (auto simp: stmt_target_def)
  then show ?thesis using Param2D p by (auto simp: parse_stmt_def Let_def)
next
  case Unknown
  then show ?thesis using assms(2) by (simp add: stmt_target_def)
qed


section \<open>Lemmas on the tokens of a set block\<close>

lemma split_ws_join: "split_ws (join '' '' xs) = concat (map split_ws xs)"
proof (induction "'' ''" xs rule: join.induct)
  case 1
  then show ?case by simp
next
  case (2 x)
  then show ?case by simp
next
  case (3 x y ys)
  have "split_ws (x @ CHR '' '' # join '' '' (y # ys)) = split_ws x @ split_ws (join '' '' (y # ys))"
    by (rule split_ws_append_space) (simp add: isspace_def)
  then show ?case using 3 by simp
qed

lemma space_not_special: "isspace c \<Longrightarrow> c \<noteq> CHR '':'' \<and> c \<noteq> CHR ''='' \<and> c \<noteq> CHR '';''"
  using special_chars by auto

lemma normalise_space:
  "isspace sp \<Longrightarrow> normalise (a @ sp # b) = normalise a @ sp # normalise b"
proof -
  assume s: "isspace sp"
  then have n: "sp \<noteq> CHR '':''" "sp \<noteq> CHR ''=''" "sp \<noteq> CHR '';''"
    using space_not_special by auto
  have "replace_assign '' := '' (a @ sp # b) = replace_assign '' := '' a @ sp # replace_assign '' := '' b"
    using n(1,2) by (rule replace_assign_space)
  then show ?thesis using n(3) by (simp add: normalise_def replace_char_def)
qed

lemma normalise_Nil: "normalise [] = []"
  by (simp add: normalise_def replace_char_def)

lemma split_ws_normalise_gen:
  "\<forall>c\<in>set t. \<not> isspace c \<Longrightarrow>
   split_ws (normalise (t @ s)) = concat (map (\<lambda>u. split_ws (normalise u)) (split_ws (t @ s)))"
proof (induction s arbitrary: t)
  case Nil
  show ?case
  proof (cases "t = []")
    case True
    then show ?thesis by (simp add: normalise_Nil)
  next
    case False
    then have "split_ws t = [t]" using Nil by (intro split_ws_word) auto
    then show ?thesis by simp
  qed
next
  case (Cons c s)
  show ?case
  proof (cases "isspace c")
    case True
    have l: "split_ws (normalise (t @ c # s)) = split_ws (normalise t) @ split_ws (normalise s)"
      unfolding normalise_space [OF True] using True by (rule split_ws_append_space)
    have r: "split_ws (t @ c # s) = split_ws t @ split_ws s"
      using True by (rule split_ws_append_space)
    have 1: "split_ws (normalise s) = concat (map (\<lambda>u. split_ws (normalise u)) (split_ws s))"
      using Cons.IH [of "[]"] by simp
    have 2: "split_ws (normalise t) = concat (map (\<lambda>u. split_ws (normalise u)) (split_ws t))"
    proof (cases "t = []")
      case True
      then show ?thesis by (simp add: normalise_Nil)
    next
      case False
      then have "split_ws t = [t]" using Cons.prems by (intro split_ws_word) auto
      then show ?thesis by simp
    qed
    show ?thesis unfolding l r 1 2 by simp
  next
    case False
    then have "\<forall>x\<in>set (t @ [c]). \<not> isspace x" using Cons.prems by simp
    from Cons.IH [OF this] show ?thesis by simp
  qed
qed

lemma split_ws_normalise:
  "split_ws (normalise s) = concat (map (\<lambda>u. split_ws (normalise u)) (split_ws s))"
  using split_ws_normalise_gen [of "[]" s] by simp

lemma index_of_append: "x \<notin> set xs \<Longrightarrow> index_of x (xs @ x # ys) = Some (length xs)"
  by (induction xs) auto

lemma set_tokens_normalise:
  "set_tokens (strip_comments first) added =
     split_ws (normalise (join '' '' (map strip_comments (first # added))))"
  by (simp add: set_tokens_def set_joined_def normalise_def strip_comments_idem)

lemma concat_last_group:
  assumes "concat (gs @ [g]) = xs @ [x]" and "g \<noteq> []"
  shows "last g = x \<and> set (concat gs) \<subseteq> set xs"
proof -
  have "concat gs @ g = xs @ [x]" using assms(1) by simp
  then have "concat gs @ butlast g @ [last g] = xs @ [x]" using assms(2) by simp
  then have "(concat gs @ butlast g) @ [last g] = xs @ [x]" by simp
  then have "concat gs @ butlast g = xs \<and> last g = x" by (rule append1_eq_conv [THEN iffD1])
  then show ?thesis by auto
qed

lemma concat_map_tokens:
  "concat (map (\<lambda>u. split_ws (normalise u)) (concat (map split_ws xs))) =
   concat (map (\<lambda>x. split_ws (normalise x)) xs)"
  by (induction xs) (simp_all add: split_ws_normalise [symmetric])

lemma set_tokens_lines:
  "set_tokens (strip_comments first) added = concat (map line_tokens (first # added))"
proof -
  have "set_tokens (strip_comments first) added =
      concat (map (\<lambda>u. split_ws (normalise u))
        (concat (map split_ws (map strip_comments (first # added)))))"
    unfolding set_tokens_normalise
      split_ws_normalise [of "join '' '' (map strip_comments (first # added))"] split_ws_join ..
  also have "\<dots> = concat (map (\<lambda>x. split_ws (normalise x)) (map strip_comments (first # added)))"
    by (rule concat_map_tokens)
  also have "\<dots> = concat (map line_tokens (first # added))"
    by (simp add: line_tokens_def [abs_def] comp_def)
  finally show ?thesis .
qed

lemma semicolon_in_normalise: "CHR '';'' \<in> set (normalise s) \<Longrightarrow> CHR '';'' \<in> set s"
proof (rule ccontr)
  assume a: "CHR '';'' \<in> set (normalise s)" and n: "CHR '';'' \<notin> set s"
  have "CHR '';'' \<notin> set (replace_assign '' := '' s)"
    using n set_replace_assign_sub [of "'' := ''" s] by auto
  then have "normalise s = replace_assign '' := '' s"
    by (simp add: normalise_def replace_char_none)
  then show False using a \<open>CHR '';'' \<notin> set (replace_assign '' := '' s)\<close> by simp
qed

lemma semicolon_token_iff:
  "'';'' \<in> set (split_ws (normalise s)) \<longleftrightarrow> CHR '';'' \<in> set s"
proof
  assume "'';'' \<in> set (split_ws (normalise s))"
  then have "CHR '';'' \<in> set (normalise s)" using split_ws_token_chars by fastforce
  then show "CHR '';'' \<in> set s" by (rule semicolon_in_normalise)
next
  assume "CHR '';'' \<in> set s"
  then obtain a b where s: "s = a @ CHR '';'' # b" by (meson split_list)
  have "replace_assign '' := '' (a @ CHR '';'' # b) =
      replace_assign '' := '' a @ CHR '';'' # replace_assign '' := '' b"
    by (rule replace_assign_space) simp_all
  then have "normalise s = normalise a @ CHR '' '' # ('';'' @ CHR '' '' # normalise b)"
    by (simp add: s normalise_def replace_char_def)
  moreover have "split_ws (normalise a @ CHR '' '' # ('';'' @ CHR '' '' # normalise b)) =
      split_ws (normalise a) @ split_ws ('';'' @ CHR '' '' # normalise b)"
    by (rule split_ws_append_space) (simp add: isspace_def)
  moreover have "split_ws ('';'' @ CHR '' '' # normalise b) = split_ws '';'' @ split_ws (normalise b)"
    by (rule split_ws_append_space) (simp add: isspace_def)
  moreover have "split_ws '';'' = ['';'']" by (simp add: split_ws_def isspace_def)
  ultimately show "'';'' \<in> set (split_ws (normalise s))" by simp
qed

lemma parse_set_block_statement:
  assumes "set_tokens line added = ''set'' # S # '':='' # es @ ['';'']"
    and "S \<noteq> '':=''" and "S \<noteq> '';''" and "'';'' \<notin> set es"
  shows "parse_set_block fname line added = Inr (S, es)"
proof -
  have i1: "index_of '':='' (''set'' # S # '':='' # es @ ['';'']) = Some 2"
    using assms(2) by simp
  have "index_of '';'' (es @ '';'' # []) = Some (length es)" using assms(4) by (rule index_of_append)
  then have i2: "index_of '';'' (''set'' # S # '':='' # es @ ['';'']) = Some (3 + length es)"
    using assms(3) by simp
  have sl: "slice (2 + 1) (3 + length es) (''set'' # S # '':='' # es @ ['';'']) = es"
    by (simp add: slice_def)
  show ?thesis
    unfolding parse_set_block_def Let_def assms(1) i1 i2 using sl by simp
qed

section \<open>The claims\<close>

text \<open>
  Claim C3. When the scanner stands on a line that starts with \<open>set \<close> and the tokens
  of the block accumulated from it hold no \<open>:=\<close>, parsing stops with the error of a
  malformed set block, which carries the name of the file and the joined text of the
  block; no document is returned, whatever the lines after the block are.
\<close>

theorem set_block_without_assign:
  assumes "startswith ''set '' (strip_comments raw)"
    and "'':='' \<notin> set (set_tokens (strip_comments raw) (fst (collect_block (strip_comments raw) rest)))"
  shows "parse_lines fname (raw # rest) doc =
     Inl (MalformedSetBlock fname
           (set_joined (strip_comments raw) (fst (collect_block (strip_comments raw) rest))))"
proof -
  let ?added = "fst (collect_block (strip_comments raw) rest)"
  obtain t ts where ts: "set_tokens (strip_comments raw) ?added = ''set'' # t # ts"
    using set_tokens_shape [OF assms(1)] by blast
  have i: "index_of '':='' (set_tokens (strip_comments raw) ?added) = None"
    using assms(2) by (simp add: index_of_None_iff)
  have "parse_set_block fname (strip_comments raw) ?added =
      Inl (MalformedSetBlock fname (set_joined (strip_comments raw) ?added))"
    unfolding parse_set_block_def Let_def i by (simp add: ts)
  then show ?thesis by (simp add: parse_stmt_set [OF assms(1)])
qed

theorem set_block_without_assign_witness:
  "parse_lines ''caso.dat'' [''set BAD H1 H2 ;'', ''set OK := a ;''] \<lparr>sets = [], params = []\<rparr> =
     Inl (MalformedSetBlock ''caso.dat'' ''set BAD H1 H2 ;'')"
proof -
  have 1: "startswith ''set '' (strip_comments ''set BAD H1 H2 ;'')" by code_simp
  have 2: "'':='' \<notin> set (set_tokens (strip_comments ''set BAD H1 H2 ;'')
      (fst (collect_block (strip_comments ''set BAD H1 H2 ;'') [''set OK := a ;''])))" by code_simp
  have 3: "set_joined (strip_comments ''set BAD H1 H2 ;'')
      (fst (collect_block (strip_comments ''set BAD H1 H2 ;'') [''set OK := a ;''])) = ''set BAD H1 H2 ;''"
    by code_simp
  show ?thesis using set_block_without_assign [OF 1 2] unfolding 3 .
qed




text \<open>
  Claim C7. In a 1D statement, take the pairs (key, value token) of the data lines of the
  block in file order, all of whose values \<open>float\<close> accepts. When a key \<open>k\<close> stands on
  a line with the value \<open>v\<close> and on no later line, the mapping stored for the statement
  gives \<open>k\<close> the float of \<open>v\<close>, whatever values earlier lines gave to \<open>k\<close>; the
  statement ends without error.
\<close>

theorem duplicate_key_last_wins:
  assumes "classify (strip_comments raw) = Param1D"
    and "List.map_filter line_pair (fst (collect_block (strip_comments raw) rest)) = before @ (k, v) # after"
    and "k \<notin> fst ` set after"
    and "\<forall>p\<in>set (before @ (k, v) # after). py_float (snd p) \<noteq> None"
  shows "\<exists>name m. parse_stmt fname raw rest doc =
            Inr (snd (collect_block (strip_comments raw) rest),
                 doc\<lparr>params := AList.update name (Map1 m) (params doc)\<rparr>)
          \<and> py_float v \<noteq> None \<and> map_of m k = py_float v"
proof -
  obtain name m where r:
    "parse_stmt fname raw rest doc =
        Inr (snd (collect_block (strip_comments raw) rest),
             doc\<lparr>params := AList.update name (Map1 m) (params doc)\<rparr>)"
    "\<forall>key. map_of m key =
       (case map_of (rev (before @ (k, v) # after)) key of None \<Rightarrow> None | Some v \<Rightarrow> py_float v)"
    using param_1d_result [OF assms(1,2,4)] by blast
  have "map_of (rev after) k = None"
    using assms(3) by (simp add: map_of_eq_None_iff)
  then have "map_of (rev (before @ (k, v) # after)) k = Some v"
    by (simp add: map_of_append map_add_def)
  then have "map_of m k = py_float v" using r(2) by simp
  moreover have "py_float v \<noteq> None" using assms(4) by simp
  ultimately show ?thesis using r(1) by blast
qed

theorem duplicate_key_last_wins_witness:
  "\<exists>name m. parse_stmt ''caso.dat'' ''param P :=  # hourly''
        [''k1 1'', ''k1 7'', ''k3 4 ;'', ''set A := b ;''] \<lparr>sets = [], params = []\<rparr> =
      Inr ([''set A := b ;''], \<lparr>sets = [], params = [(name, Map1 m)]\<rparr>)
    \<and> map_of m ''k1'' = Some (Finite 7)"
proof -
  have 1: "classify (strip_comments ''param P :=  # hourly'') = Param1D" by code_simp
  have 2: "List.map_filter line_pair (fst (collect_block (strip_comments ''param P :=  # hourly'')
      [''k1 1'', ''k1 7'', ''k3 4 ;'', ''set A := b ;''])) =
      [(''k1'', ''1'')] @ (''k1'', ''7'') # [(''k3'', ''4'')]" by code_simp
  have 3: "''k1'' \<notin> fst ` set [(''k3'', ''4'')]" by simp
  have 4: "\<forall>p\<in>set ([(''k1'', ''1'')] @ (''k1'', ''7'') # [(''k3'', ''4'')]). py_float (snd p) \<noteq> None"
    by code_simp
  have 5: "snd (collect_block (strip_comments ''param P :=  # hourly'')
      [''k1 1'', ''k1 7'', ''k3 4 ;'', ''set A := b ;'']) = [''set A := b ;'']" by code_simp
  have 6: "py_float ''7'' = Some (Finite 7)" by code_simp
  show ?thesis
    using duplicate_key_last_wins [OF 1 2 3 4, of "''caso.dat''" "\<lparr>sets = [], params = []\<rparr>"]
    unfolding 5 6 by simp
qed




text \<open>
  Claim C6, as the code has it. In a 1D block and in a 2D block, the first value token in
  file order that is taken for conversion and that \<open>float\<close> refuses ends the parsing of
  the file: the result is the ValueError of \<open>float\<close>, which holds that token, and no
  document. The error holds neither the name of the file nor the text of the block: the
  same error comes out under two different file names.
\<close>

theorem float_error_is_fatal:
  "(classify (strip_comments raw) = Param1D \<and>
    List.map_filter line_pair (fst (collect_block (strip_comments raw) rest)) = good @ (k, v) # others \<and>
    (\<forall>p\<in>set good. py_float (snd p) \<noteq> None) \<and> py_float v = None
    \<longrightarrow> parse_lines fname (raw # rest) doc = Inl (CouldNotConvertToFloat v)) \<and>
   (classify (strip_comments raw) = Param2D \<and>
    table_header (strip_comments raw) = Inr (name, cols) \<and>
    List.map_filter (table_row cols) (fst (collect_block (strip_comments raw) rest)) =
       goodrows @ (r, gv @ v # ov) # otherrows \<and>
    (\<forall>p\<in>set goodrows. \<forall>x\<in>set (snd p). py_float x \<noteq> None) \<and>
    (\<forall>x\<in>set gv. py_float x \<noteq> None) \<and> py_float v = None
    \<longrightarrow> parse_lines fname (raw # rest) doc = Inl (CouldNotConvertToFloat v))"
proof (intro conjI impI)
  assume a: "classify (strip_comments raw) = Param1D \<and>
    List.map_filter line_pair (fst (collect_block (strip_comments raw) rest)) = good @ (k, v) # others \<and>
    (\<forall>p\<in>set good. py_float (snd p) \<noteq> None) \<and> py_float v = None"
  obtain name' where n: "param_1d_name (strip_comments raw) = Inr name'"
    using param_1d_name_ok a by blast
  have "param_1d_lines (fst (collect_block (strip_comments raw) rest)) [] = Inl (CouldNotConvertToFloat v)"
    using a by (intro param_1d_lines_bad [of _ good k v others]) simp_all
  then have "parse_stmt fname raw rest doc = Inl (CouldNotConvertToFloat v)"
    using a n unfolding parse_stmt_1d [of raw] by (simp add: parse_stmt_1d parse_param_1d_def)
  then show "parse_lines fname (raw # rest) doc = Inl (CouldNotConvertToFloat v)" by simp
next
  assume a: "classify (strip_comments raw) = Param2D \<and>
    table_header (strip_comments raw) = Inr (name, cols) \<and>
    List.map_filter (table_row cols) (fst (collect_block (strip_comments raw) rest)) =
       goodrows @ (r, gv @ v # ov) # otherrows \<and>
    (\<forall>p\<in>set goodrows. \<forall>x\<in>set (snd p). py_float x \<noteq> None) \<and>
    (\<forall>x\<in>set gv. py_float x \<noteq> None) \<and> py_float v = None"
  let ?added = "fst (collect_block (strip_comments raw) rest)"
  have "(r, gv @ v # ov) \<in> set (List.map_filter (table_row cols) ?added)" using a by simp
  then obtain dl where "table_row cols dl = Some (r, gv @ v # ov)"
    by (auto simp: map_filter_def)
  then have "length cols = length (gv @ v # ov)" using table_row_fst by metis
  then have "row_dict cols (gv @ v # ov) [] = Inl (CouldNotConvertToFloat v)"
    using a by (intro row_dict_bad) simp_all
  then have "table_lines cols ?added [] = Inl (CouldNotConvertToFloat v)"
    using a by (intro table_lines_bad [of cols ?added goodrows r "gv @ v # ov" otherrows]) simp_all
  then have "parse_stmt fname raw rest doc = Inl (CouldNotConvertToFloat v)"
    using a by (simp add: parse_stmt_2d parse_param_2d_def)
  then show "parse_lines fname (raw # rest) doc = Inl (CouldNotConvertToFloat v)" by simp
qed

theorem float_error_is_fatal_witness:
  "parse_lines ''a.dat'' [''param P :='', ''k1 1'', ''k2 zz ;'', ''k3 7''] \<lparr>sets = [], params = []\<rparr> =
      Inl (CouldNotConvertToFloat ''zz'') \<and>
   parse_lines ''a.dat'' [''param T: A B :='', ''r1 1 2'', ''r2 3 x ;''] \<lparr>sets = [], params = []\<rparr> =
      Inl (CouldNotConvertToFloat ''x'')"
proof -
  have 1: "classify (strip_comments ''param P :='') = Param1D \<and>
    List.map_filter line_pair (fst (collect_block (strip_comments ''param P :='') [''k1 1'', ''k2 zz ;'', ''k3 7''])) =
      [(''k1'', ''1'')] @ (''k2'', ''zz'') # [] \<and>
    (\<forall>p\<in>set [(''k1'', ''1'')]. py_float (snd p) \<noteq> None) \<and> py_float ''zz'' = None"
    by code_simp
  have 2: "classify (strip_comments ''param T: A B :='') = Param2D \<and>
    table_header (strip_comments ''param T: A B :='') = Inr (''T'', [''A'', ''B'']) \<and>
    List.map_filter (table_row [''A'', ''B''])
       (fst (collect_block (strip_comments ''param T: A B :='') [''r1 1 2'', ''r2 3 x ;''])) =
       [(''r1'', [''1'', ''2''])] @ (''r2'', [''3''] @ ''x'' # []) # [] \<and>
    (\<forall>p\<in>set [(''r1'', [''1'', ''2''])]. \<forall>x\<in>set (snd p). py_float x \<noteq> None) \<and>
    (\<forall>x\<in>set [''3'']. py_float x \<noteq> None) \<and> py_float ''x'' = None"
    by code_simp
  from float_error_is_fatal [of "''param P :=''" "[''k1 1'', ''k2 zz ;'', ''k3 7'']" "[(''k1'', ''1'')]"
      "''k2''" "''zz''" "[]" "''a.dat''" "\<lparr>sets = [], params = []\<rparr>"] 1
  have a: "parse_lines ''a.dat'' [''param P :='', ''k1 1'', ''k2 zz ;'', ''k3 7''] \<lparr>sets = [], params = []\<rparr> =
      Inl (CouldNotConvertToFloat ''zz'')" by blast
  from float_error_is_fatal [of "''param T: A B :=''" "[''r1 1 2'', ''r2 3 x ;'']" _ _ "''x''" _ _ _
      "''T''" "[''A'', ''B'']" "[(''r1'', [''1'', ''2''])]" "''r2''" "[''3'']" "[]" "[]"] 2
  have b: "parse_lines ''a.dat'' [''param T: A B :='', ''r1 1 2'', ''r2 3 x ;''] \<lparr>sets = [], params = []\<rparr> =
      Inl (CouldNotConvertToFloat ''x'')" by blast
  show ?thesis using a b by simp
qed


theorem float_error_names_no_file:
  "parse_dat ''a.dat'' ''param P :=\<newline>k1 zz ;'' = Inl (CouldNotConvertToFloat ''zz'') \<and>
   parse_dat ''b.dat'' ''param P :=\<newline>k1 zz ;'' = Inl (CouldNotConvertToFloat ''zz'')"
  by code_simp

text \<open>
  Claim C4. A line that holds, between optional white space and before an optional
  comment, \<open>param\<close>, white space, a name, optional white space, \<open>=\<close>, a right-hand
  side without \<open>;\<close> that is not empty, and \<open>;\<close>, is a scalar statement: parsing it
  raises nothing and stores under the name the float of the trimmed right-hand side when
  \<open>float\<close> accepts it, and the trimmed right-hand side itself otherwise. The line
  \<open>param HedgeRate=0.8;\<close> stores the float 0.8.
\<close>

theorem scalar_statement:
  assumes "raw = lead @ (''param'' @ ws1 @ name @ ws2 @ ''='' @ body @ '';'') @ trail @ cmt"
    and "blank lead" and "blank trail" and "cmt = [] \<or> hd cmt = CHR ''#''"
    and "ws1 \<noteq> []" and "blank ws1" and "is_name name" and "blank ws2"
    and "body \<noteq> []" and "CHR '';'' \<notin> set body" and "CHR ''#'' \<notin> set body"
  shows "parse_stmt fname raw rest doc =
     Inr (rest, doc\<lparr>params := AList.update name
        (case py_float (strip body) of Some x \<Rightarrow> Num x | None \<Rightarrow> Str (strip body))
        (params doc)\<rparr>)"
proof -
  let ?core = "''param'' @ ws1 @ name @ ws2 @ ''='' @ body @ '';''"
  have s1: "\<forall>x\<in>set ws1. isspace x" and s2: "\<forall>x\<in>set ws2. isspace x"
    using assms(6,8) by (simp_all add: blank_def list_all_iff)
  obtain c cs where n: "name = c # cs" "is_name_start c" "\<forall>x\<in>set cs. is_word x"
    using assms(7) by (auto simp: is_name_def list_all_iff split: list.splits)
  have "\<forall>x\<in>set name. is_word x" using n name_start_word by auto
  then have hn: "CHR ''#'' \<notin> set name" using special_chars(2) by auto
  have h: "CHR ''#'' \<notin> set ?core"
    using s1 s2 hn assms(11) special_chars(1) by auto
  have "hd ?core = CHR ''p''" by simp
  then have hc: "\<not> isspace (hd ?core)" by (simp add: isspace_def)
  have "last ?core = CHR '';''" by simp
  then have lc: "\<not> isspace (last ?core)" using special_chars(5) by simp
  have sc: "strip_comments raw = ?core"
    unfolding assms(1) using assms(2,3,4) _ hc lc h by (rule strip_comments_pad) simp
  obtain g2 where g: "match_scalar ?core = Some (name, g2)" "strip g2 = strip body"
    using match_scalar_shape [OF assms(5,6,7,8,9,10)] by blast
  have "classify ?core = Scalar name g2" unfolding classify_def g(1) by simp
  then show ?thesis unfolding parse_stmt_def Let_def sc by (simp add: g(2) split: option.split)
qed

theorem scalar_statement_witness:
  "parse_stmt ''caso.dat'' ''param HedgeRate=0.8;'' [] \<lparr>sets = [], params = []\<rparr> =
     Inr ([], \<lparr>sets = [], params = [(''HedgeRate'', Num (Finite (8 / 10)))]\<rparr>) \<and>
   parse_stmt ''caso.dat'' ''  param Label = north zone ;  # text'' [] \<lparr>sets = [], params = []\<rparr> =
     Inr ([], \<lparr>sets = [], params = [(''Label'', Str ''north zone'')]\<rparr>)"
proof -
  have f: "py_float (strip ''0.8'') = Some (Finite (8 / 10))" by code_simp
  have a: "parse_stmt ''caso.dat'' ''param HedgeRate=0.8;'' [] \<lparr>sets = [], params = []\<rparr> =
     Inr ([], \<lparr>sets = [], params = [(''HedgeRate'', Num (Finite (8 / 10)))]\<rparr>)"
    using scalar_statement [of "''param HedgeRate=0.8;''" "[]" "'' ''" "''HedgeRate''" "[]" "''0.8''" "[]" "[]"
        "''caso.dat''" "[]" "\<lparr>sets = [], params = []\<rparr>"]
    unfolding f
    by (simp add: blank_def is_name_def isspace_def is_name_start_def is_word_def is_digit_def ord_def)
  have g: "strip '' north zone '' = ''north zone''" "py_float ''north zone'' = None" by code_simp+
  have b: "parse_stmt ''caso.dat'' ''  param Label = north zone ;  # text'' [] \<lparr>sets = [], params = []\<rparr> =
     Inr ([], \<lparr>sets = [], params = [(''Label'', Str ''north zone'')]\<rparr>)"
    using scalar_statement [of "''  param Label = north zone ;  # text''" "''  ''" "'' ''" "''Label''" "'' ''"
        "'' north zone ''" "''  ''" "''# text''" "''caso.dat''" "[]" "\<lparr>sets = [], params = []\<rparr>"]
    unfolding g
    by (simp add: blank_def is_name_def isspace_def is_name_start_def is_word_def is_digit_def ord_def)
  show ?thesis using a b by simp
qed

text \<open>
  Claim C2, as the code has it. The first line of a 1D statement is its header,
  \<open>param P :=\<close>, and nothing after the \<open>:=\<close> on that line is read. Every later line
  of the block gives at most one pair: after its comment and any \<open>;\<close> are removed, its
  first two tokens are the key and the value, further tokens on the line are not read,
  and a line with fewer than two tokens is skipped without error. When \<open>float\<close> accepts
  every such value, \<open>params\<close> holds under \<open>P\<close> a mapping with exactly those keys, each
  with the float of its value, the last line winning for a repeated key. The statement
  written on one line gives the empty mapping.
\<close>

theorem param_1d_statement:
  assumes "strip_comments raw = ''param '' @ ws1 @ P @ ws2 @ '':='' @ tail"
    and "blank ws1" and "plain_name P" and "blank ws2"
    and "List.map_filter line_pair (fst (collect_block (strip_comments raw) rest)) = kvs"
    and "\<forall>p\<in>set kvs. py_float (snd p) \<noteq> None"
  shows "\<exists>m. parse_stmt fname raw rest doc =
            Inr (snd (collect_block (strip_comments raw) rest),
                 doc\<lparr>params := AList.update P (Map1 m) (params doc)\<rparr>) \<and>
          (\<forall>key. map_of m key = (case map_of (rev kvs) key of None \<Rightarrow> None | Some v \<Rightarrow> py_float v))"
proof -
  have c: "classify (strip_comments raw) = Param1D"
    using assms(1,2,3,4) by (rule header_1d_classify)
  have n: "param_1d_name (strip_comments raw) = Inr P"
    using assms(1,2,3,4) strip_comments_idem by (rule header_1d_name)
  obtain name m where r: "param_1d_name (strip_comments raw) = Inr name"
    "parse_stmt fname raw rest doc =
       Inr (snd (collect_block (strip_comments raw) rest),
            doc\<lparr>params := AList.update name (Map1 m) (params doc)\<rparr>)"
    "\<forall>key. map_of m key = (case map_of (rev kvs) key of None \<Rightarrow> None | Some v \<Rightarrow> py_float v)"
    using param_1d_result [OF c assms(5,6)] by blast
  have "name = P" using n r(1) by simp
  then show ?thesis using r(2,3) by blast
qed

theorem param_1d_statement_witness:
  "\<exists>m. parse_stmt ''caso.dat'' ''param P :=   # prices'' [''k1 1 k2 2'', ''k3'', ''k3 4 ;'', ''param x = 1;'']
          \<lparr>sets = [], params = []\<rparr> =
        Inr ([''param x = 1;''], \<lparr>sets = [], params = [(''P'', Map1 m)]\<rparr>) \<and>
      map_of m ''k1'' = Some (Finite 1) \<and> map_of m ''k2'' = None \<and> map_of m ''k3'' = Some (Finite 4)"
proof -
  let ?raw = "''param P :=   # prices''"
  let ?rest = "[''k1 1 k2 2'', ''k3'', ''k3 4 ;'', ''param x = 1;'']"
  have 1: "strip_comments ?raw = ''param '' @ [] @ ''P'' @ '' '' @ '':='' @ []" by code_simp
  have 2: "blank []" "plain_name ''P''" "blank '' ''" by code_simp+
  have 3: "List.map_filter line_pair (fst (collect_block (strip_comments ?raw) ?rest)) =
      [(''k1'', ''1''), (''k3'', ''4'')]" by code_simp
  have 4: "\<forall>p\<in>set [(''k1'', ''1''), (''k3'', ''4'')]. py_float (snd p) \<noteq> None" by code_simp
  have 5: "snd (collect_block (strip_comments ?raw) ?rest) = [''param x = 1;'']" by code_simp
  have 6: "py_float ''1'' = Some (Finite 1)" "py_float ''4'' = Some (Finite 4)" by code_simp+
  obtain m where m: "parse_stmt ''caso.dat'' ?raw ?rest \<lparr>sets = [], params = []\<rparr> =
            Inr (snd (collect_block (strip_comments ?raw) ?rest),
                 \<lparr>sets = [], params = []\<rparr>\<lparr>params := AList.update ''P'' (Map1 m) (params \<lparr>sets = [], params = []\<rparr>)\<rparr>)"
      "\<forall>key. map_of m key = (case map_of (rev [(''k1'', ''1''), (''k3'', ''4'')]) key of
          None \<Rightarrow> None | Some v \<Rightarrow> py_float v)"
    using param_1d_statement [OF 1 2 3 4, of "''caso.dat''" "\<lparr>sets = [], params = []\<rparr>"] by blast
  have "map_of m ''k1'' = Some (Finite 1)" "map_of m ''k2'' = None" "map_of m ''k3'' = Some (Finite 4)"
    using m(2) 6 by simp_all
  moreover have "parse_stmt ''caso.dat'' ?raw ?rest \<lparr>sets = [], params = []\<rparr> =
        Inr ([''param x = 1;''], \<lparr>sets = [], params = [(''P'', Map1 m)]\<rparr>)"
    using m(1) unfolding 5 by simp
  ultimately show ?thesis by blast
qed

theorem param_1d_one_pair_per_line:
  "parse_dat ''caso.dat'' ''param P := k1 1 k2 2 ;'' =
      Inr \<lparr>sets = [], params = [(''P'', Map1 [])]\<rparr> \<and>
   parse_dat ''caso.dat'' ''param P :=\<newline>k1 1 k2 2 ;'' =
      Inr \<lparr>sets = [], params = [(''P'', Map1 [(''k1'', Finite 1)])]\<rparr>"
  by code_simp

text \<open>
  Claim C10. Take two statements that write the same name into the same top-level
  mapping (two set statements, or two param statements of any shape), each of which
  parses without error on its own. Run after the earlier one, the later one raises
  nothing and leaves exactly the document it would have left had the earlier statement
  not been there: the earlier value is not kept. More generally, whatever document the
  scanner has built when it reaches the later statement, the entry of the name afterwards
  is the value of the later statement.
\<close>

theorem later_statement_replaces:
  assumes "stmt_target (strip_comments raw1) (fst (collect_block (strip_comments raw1) rest1)) = Some t"
    and "stmt_target (strip_comments raw2) (fst (collect_block (strip_comments raw2) rest2)) = Some t"
    and "parse_stmt fname raw1 rest1 doc = Inr (r1, doc1)"
    and "parse_stmt fname raw2 rest2 doc = Inr (r2, doc2)"
  shows "parse_stmt fname raw2 rest2 doc1 = Inr (r2, doc2) \<and>
     (\<forall>d. \<exists>d'. parse_stmt fname raw2 rest2 d = Inr (r2, d') \<and>
                entry t d' = entry t doc2 \<and> entry t d' \<noteq> None)"
proof -
  from parse_stmt_effect [OF assms(4,2)] show ?thesis
  proof (elim disjE exE conjE)
    fix n x assume t: "t = InSets n"
      and e2: "\<forall>e. parse_stmt fname raw2 rest2 e = Inr (r2, e\<lparr>sets := AList.update n x (sets e)\<rparr>)"
    have d2: "doc2 = doc\<lparr>sets := AList.update n x (sets doc)\<rparr>" using e2 assms(4) by simp
    obtain y where d1: "doc1 = doc\<lparr>sets := AList.update n y (sets doc)\<rparr>"
      using parse_stmt_effect [OF assms(3,1)] t assms(3) by auto
    have a: "parse_stmt fname raw2 rest2 doc1 = Inr (r2, doc2)"
      using e2 by (simp add: d1 d2 AList.update_last)
    have b: "\<forall>d. \<exists>d'. parse_stmt fname raw2 rest2 d = Inr (r2, d') \<and>
                entry t d' = entry t doc2 \<and> entry t d' \<noteq> None"
      using e2 by (simp add: t d2 AList.update_conv')
    show ?thesis using a b by blast
  next
    fix n x assume t: "t = InParams n"
      and e2: "\<forall>e. parse_stmt fname raw2 rest2 e = Inr (r2, e\<lparr>params := AList.update n x (params e)\<rparr>)"
    have d2: "doc2 = doc\<lparr>params := AList.update n x (params doc)\<rparr>" using e2 assms(4) by simp
    obtain y where d1: "doc1 = doc\<lparr>params := AList.update n y (params doc)\<rparr>"
      using parse_stmt_effect [OF assms(3,1)] t assms(3) by auto
    have a: "parse_stmt fname raw2 rest2 doc1 = Inr (r2, doc2)"
      using e2 by (simp add: d1 d2 AList.update_last)
    have b: "\<forall>d. \<exists>d'. parse_stmt fname raw2 rest2 d = Inr (r2, d') \<and>
                entry t d' = entry t doc2 \<and> entry t d' \<noteq> None"
      using e2 by (simp add: t d2 AList.update_conv')
    show ?thesis using a b by blast
  qed
qed

theorem later_statement_replaces_witness:
  "parse_stmt ''caso.dat'' ''set S := c ;'' [] \<lparr>sets = [(''S'', [''a'', ''b''])], params = []\<rparr> =
      Inr ([], \<lparr>sets = [(''S'', [''c''])], params = []\<rparr>) \<and>
   parse_stmt ''caso.dat'' ''param P :='' [''k 2 ;''] \<lparr>sets = [], params = [(''P'', Num (Finite 1))]\<rparr> =
      Inr ([], \<lparr>sets = [], params = [(''P'', Map1 [(''k'', Finite 2)])]\<rparr>)"
proof -
  let ?d = "\<lparr>sets = [], params = []\<rparr>"
  have 1: "stmt_target (strip_comments ''set S := a b ;'') (fst (collect_block (strip_comments ''set S := a b ;'') [])) = Some (InSets ''S'')"
    by code_simp
  have 2: "stmt_target (strip_comments ''set S := c ;'') (fst (collect_block (strip_comments ''set S := c ;'') [])) = Some (InSets ''S'')"
    by code_simp
  have 3: "parse_stmt ''caso.dat'' ''set S := a b ;'' [] ?d = Inr ([], \<lparr>sets = [(''S'', [''a'', ''b''])], params = []\<rparr>)"
    by code_simp
  have 4: "parse_stmt ''caso.dat'' ''set S := c ;'' [] ?d = Inr ([], \<lparr>sets = [(''S'', [''c''])], params = []\<rparr>)"
    by code_simp
  have 5: "stmt_target (strip_comments ''param P = 1;'') (fst (collect_block (strip_comments ''param P = 1;'') [])) = Some (InParams ''P'')"
    by code_simp
  have 6: "stmt_target (strip_comments ''param P :='') (fst (collect_block (strip_comments ''param P :='') [''k 2 ;''])) = Some (InParams ''P'')"
    by code_simp
  have 7: "parse_stmt ''caso.dat'' ''param P = 1;'' [] ?d = Inr ([], \<lparr>sets = [], params = [(''P'', Num (Finite 1))]\<rparr>)"
    by code_simp
  have 8: "parse_stmt ''caso.dat'' ''param P :='' [''k 2 ;''] ?d = Inr ([], \<lparr>sets = [], params = [(''P'', Map1 [(''k'', Finite 2)])]\<rparr>)"
    by code_simp
  show ?thesis
    using later_statement_replaces [OF 1 2 3 4] later_statement_replaces [OF 5 6 7 8] by blast
qed

text \<open>
  Claim C5, as the code has it. Take a set statement whose tokens, read line by line, are
  \<open>set\<close>, the name \<open>S\<close>, \<open>:=\<close>, the elements and the terminator \<open>;\<close> (the
  name is neither \<open>:=\<close> nor \<open>;\<close>, and no element is \<open>;\<close>), spread over any
  number of physical lines, blank lines and comments included, with or without white
  space around \<open>:=\<close> and \<open>;\<close>. Let the first line start with \<open>set \<close> once its
  comment is stripped, let the line of the terminator be the last of the block, and let no
  line between the first and the last hold a \<open>;\<close> (in its comment). Then parsing
  consumes exactly those lines and stores under \<open>S\<close> the elements in their order and
  spelling. When the line ends right after \<open>set\<close>, the statement is not recognised and
  nothing is stored; when a comment before the line of the terminator holds a \<open>;\<close>,
  the block ends there.
\<close>

theorem set_statement:
  assumes "startswith ''set '' (strip_comments first)"
    and "concat (map line_tokens (first # added)) = ''set'' # S # '':='' # es @ ['';'']"
    and "S \<noteq> '':=''" and "S \<noteq> '';''" and "'';'' \<notin> set es"
    and "\<forall>l\<in>set (butlast added). CHR '';'' \<notin> set l"
    and "line_tokens (last (first # added)) \<noteq> []"
  shows "parse_stmt fname first (added @ post) doc =
     Inr (post, doc\<lparr>sets := AList.update S es (sets doc)\<rparr>)"
proof -
  let ?line = "strip_comments first"
  let ?xs = "''set'' # S # '':='' # es"
  have nosemi: "'';'' \<notin> set ?xs" using assms(4,5) by simp
  have lt: "\<And>l. '';'' \<in> set (line_tokens l) \<longleftrightarrow> CHR '';'' \<in> set (strip_comments l)"
    unfolding line_tokens_def by (rule semicolon_token_iff)
  have cb: "collect_block ?line (added @ post) = (added, post)"
  proof (cases added rule: rev_cases)
    case Nil
    have "concat ([] @ [line_tokens first]) = ?xs @ ['';'']" using assms(2) Nil by simp
    then have "last (line_tokens first) = '';''"
      using concat_last_group assms(7) Nil by fastforce
    then have "'';'' \<in> set (line_tokens first)" using assms(7) Nil last_in_set by fastforce
    then have "CHR '';'' \<in> set ?line" using lt by simp
    then show ?thesis using Nil by (simp add: collect_block_now)
  next
    case (snoc mid lastl)
    let ?gs = "map line_tokens (first # mid)"
    let ?g = "line_tokens lastl"
    have g: "?g \<noteq> []" using assms(7) snoc by simp
    have "concat (?gs @ [?g]) = ?xs @ ['';'']" using assms(2) snoc by simp
    from concat_last_group [OF this g]
    have lg: "last ?g = '';''" and sub: "set (concat ?gs) \<subseteq> set ?xs" by blast+
    have "'';'' \<in> set ?g" using lg g last_in_set by fastforce
    then have "CHR '';'' \<in> set (strip_comments lastl)" using lt by simp
    then have 1: "CHR '';'' \<in> set lastl" using set_strip_comments by blast
    have "set (line_tokens first) \<subseteq> set ?xs" using sub by auto
    then have "'';'' \<notin> set (line_tokens first)" using nosemi by blast
    then have 2: "CHR '';'' \<notin> set ?line" using lt by simp
    have 3: "\<forall>l\<in>set mid. CHR '';'' \<notin> set l" using assms(6) snoc by simp
    show ?thesis unfolding snoc using collect_block_upto [OF 2 3 1] by simp
  qed
  have "set_tokens ?line added = ''set'' # S # '':='' # es @ ['';'']"
    unfolding set_tokens_lines using assms(2) .
  then have "parse_set_block fname ?line added = Inr (S, es)"
    using assms(3,4,5) by (rule parse_set_block_statement)
  then show ?thesis unfolding parse_stmt_set [OF assms(1)] cb by simp
qed

theorem set_statement_witness:
  "parse_stmt ''caso.dat'' ''set HORAS:=H01  # the hours; all of them''
       ([''H02 H03   # morning'', [], ''  H04;  # done''] @ [''param x = 1;'']) \<lparr>sets = [], params = []\<rparr> =
     Inr ([''param x = 1;''], \<lparr>sets = [(''HORAS'', [''H01'', ''H02'', ''H03'', ''H04''])], params = []\<rparr>) \<and>
   parse_stmt ''caso.dat'' ''set S := a b c;'' ([] @ []) \<lparr>sets = [], params = []\<rparr> =
     Inr ([], \<lparr>sets = [(''S'', [''a'', ''b'', ''c''])], params = []\<rparr>)"
proof -
  let ?first = "''set HORAS:=H01  # the hours; all of them''"
  let ?added = "[''H02 H03   # morning'', [], ''  H04;  # done'']"
  have 1: "startswith ''set '' (strip_comments ?first)" by code_simp
  have 2: "concat (map line_tokens (?first # ?added)) =
       ''set'' # ''HORAS'' # '':='' # [''H01'', ''H02'', ''H03'', ''H04''] @ ['';'']" by code_simp
  have 3: "''HORAS'' \<noteq> '':=''" "''HORAS'' \<noteq> '';''" "'';'' \<notin> set [''H01'', ''H02'', ''H03'', ''H04'']"
    by simp_all
  have 5: "\<forall>l\<in>set (butlast ?added). CHR '';'' \<notin> set l" by code_simp
  have 6: "line_tokens (last (?first # ?added)) \<noteq> []" by code_simp
  have a: "parse_stmt ''caso.dat'' ?first (?added @ [''param x = 1;'']) \<lparr>sets = [], params = []\<rparr> =
     Inr ([''param x = 1;''], \<lparr>sets = [(''HORAS'', [''H01'', ''H02'', ''H03'', ''H04''])], params = []\<rparr>)"
    using set_statement [OF 1 2 3 5 6, of "''caso.dat''" "[''param x = 1;'']" "\<lparr>sets = [], params = []\<rparr>"]
    by simp
  have 7: "startswith ''set '' (strip_comments ''set S := a b c;'')" by code_simp
  have 8: "concat (map line_tokens (''set S := a b c;'' # [])) =
       ''set'' # ''S'' # '':='' # [''a'', ''b'', ''c''] @ ['';'']" by code_simp
  have 9: "''S'' \<noteq> '':=''" "''S'' \<noteq> '';''" "'';'' \<notin> set [''a'', ''b'', ''c'']" by simp_all
  have 10: "\<forall>l\<in>set (butlast []). CHR '';'' \<notin> set (l::string)" by simp
  have 11: "line_tokens (last (''set S := a b c;'' # [])) \<noteq> []" by code_simp
  have b: "parse_stmt ''caso.dat'' ''set S := a b c;'' ([] @ []) \<lparr>sets = [], params = []\<rparr> =
     Inr ([], \<lparr>sets = [(''S'', [''a'', ''b'', ''c''])], params = []\<rparr>)"
    using set_statement [OF 7 8 9 10 11, of "''caso.dat''" "[]" "\<lparr>sets = [], params = []\<rparr>"]
    by simp
  show ?thesis using a b by blast
qed

theorem set_statement_broken:
  "parse_dat ''caso.dat'' ''set\<newline>S := a b ;'' = Inr \<lparr>sets = [], params = []\<rparr> \<and>
   parse_dat ''caso.dat'' ''set S := a\<newline>b  # first; second\<newline>c ;'' = Inl (NotInList '';'')"
  by code_simp

end
